theory Spec2Isabelle
  imports Complex_Main "HOL-Library.Multiset" "HOL-Library.Product_Lexorder"
begin

section \<open>Data model\<close>

text \<open>
  The backend of the tour platform is a set of handlers over a document store.
  Document identifiers are opaque strings; a timestamp is the value of \<^verbatim>\<open>Date.now()\<close>,
  milliseconds since the epoch. The handlers are pure but for the store and the clock,
  so each mutation takes the store and the clock reading and returns the store it leaves
  together with its result.
\<close>

type_synonym Id = string
type_synonym timestamp = int

text \<open>
  One element of \<^verbatim>\<open>stepProgress\<close>: \<^verbatim>\<open>{stepId, startedAt, completedAt}\<close>. The two
  timestamps carry the prefix \<open>step_\<close> here, since the enclosing document has fields of
  the same names.
\<close>

record StepProgress =
  stepId :: string
  step_startedAt :: timestamp
  step_completedAt :: "timestamp option"

text \<open>
  A document of table \<^verbatim>\<open>tourAnalytics\<close> (a Progress Record). \<open>creationTime\<close> is the
  system field \<^verbatim>\<open>_creationTime\<close>; the system field \<^verbatim>\<open>_id\<close> is the key under which
  the table holds the document.
\<close>

record TourAnalytics =
  creationTime :: timestamp
  tourId :: string
  userId :: string
  startedAt :: timestamp
  completedAt :: "timestamp option"
  abandonedAt :: "timestamp option"
  stepProgress :: "StepProgress list"

text \<open>
  A document of table \<^verbatim>\<open>tours\<close>, with the fields the handlers below read.
  \<open>tour_name\<close> is \<open>None\<close> when the document has no field \<^verbatim>\<open>name\<close> of type string,
  \<open>tour_steps\<close> is \<open>None\<close> when its field \<^verbatim>\<open>steps\<close> is not an array.
\<close>

record TourStep =
  ts_id :: string
  ts_title :: string
  ts_content :: string

record Tour =
  tour_name :: "string option"
  ownerId :: string
  tour_userId :: string
  tour_steps :: "TourStep list option"

text \<open>A document of table \<^verbatim>\<open>steps\<close>: the tour it belongs to and its ordinal.\<close>

record Step =
  step_tourId :: Id
  step_stepId :: string
  step_order :: int

text \<open>
  A document of one of the other tables of the schema (\<^verbatim>\<open>users\<close>, \<^verbatim>\<open>templates\<close>, ...),
  which the handlers below never query: the table it belongs to, and its field
  \<^verbatim>\<open>name\<close> where it has one of type string.
\<close>

record OtherDoc =
  other_table :: string
  other_name :: "string option"

text \<open>
  The store: each table lists its documents with their identifiers in creation order
  (the order of \<^verbatim>\<open>_creationTime\<close>); \<open>others\<close> holds the documents of the other tables.
  \<open>is_id\<close> is the store's own test of whether a string is an identifier at all:
  \<^verbatim>\<open>ctx.db.get\<close> throws on a string that is none.
\<close>

record db =
  tourAnalytics :: "(Id \<times> TourAnalytics) list"
  tours :: "(Id \<times> Tour) list"
  steps :: "(Id \<times> Step) list"
  others :: "(Id \<times> OtherDoc) list"
  is_id :: "string \<Rightarrow> bool"

text \<open>
  What a handler can throw: the three \<^verbatim>\<open>new Error(...)\<close> of the source, and the two
  errors of the store itself (a write to a document that does not exist, a read with a
  string that is no identifier).
\<close>

datatype error =
  AnalyticsRecordNotFound
  | Unauthorized
  | StepNotFound
  | NonexistentDocument
  | InvalidId

section \<open>The document store\<close>

text \<open>
  Modelled from the spec: the document store behind \<^verbatim>\<open>ctx.db\<close> is not among the
  sources (the spec treats the persistence engine as an external document store with
  indexed queries, and names the error of a reference to a document that does not
  exist). These are \<^verbatim>\<open>ctx.db.get\<close>, \<^verbatim>\<open>ctx.db.patch\<close>, \<^verbatim>\<open>ctx.db.delete\<close> and
  \<^verbatim>\<open>ctx.db.insert\<close> on one table: \<open>get\<close> returns \<^verbatim>\<open>null\<close> for an identifier with no
  document; \<open>patch\<close> merges the given fields into the document (here the field update
  \<open>f\<close>) and, like \<open>delete\<close>, throws when the document does not exist; \<open>insert\<close> adds the
  document under an identifier that no document of the table has (the model takes a
  string longer than every identifier in use) and returns that identifier.
\<close>

definition db_get :: "(Id \<times> 'd) list \<Rightarrow> Id \<Rightarrow> 'd option" where
  "db_get tbl i = map_of tbl i"

definition db_patch :: "(Id \<times> 'd) list \<Rightarrow> Id \<Rightarrow> ('d \<Rightarrow> 'd) \<Rightarrow> error + (Id \<times> 'd) list" where
  "db_patch tbl i f =
     (if map_of tbl i = None then Inl NonexistentDocument
      else Inr (map (\<lambda>(j, d). if j = i then (j, f d) else (j, d)) tbl))"

definition db_delete :: "(Id \<times> 'd) list \<Rightarrow> Id \<Rightarrow> error + (Id \<times> 'd) list" where
  "db_delete tbl i =
     (if map_of tbl i = None then Inl NonexistentDocument
      else Inr (filter (\<lambda>(j, d). j \<noteq> i) tbl))"

definition fresh_id :: "Id list \<Rightarrow> Id" where
  "fresh_id used = replicate (Suc (foldr (\<lambda>i n. max (length i) n) used 0)) (CHR ''k'')"

definition db_insert :: "(Id \<times> 'd) list \<Rightarrow> 'd \<Rightarrow> (Id \<times> 'd) list \<times> Id" where
  "db_insert tbl d = (let i = fresh_id (map fst tbl) in (tbl @ [(i, d)], i))"

section \<open>Session and progress tracking\<close>

text \<open>
  A mutation returns the store as the handler leaves it, where it returns or where it
  throws, and its result: \<open>Inl\<close> the error thrown, \<open>Inr\<close> the value returned. (The
  platform discards the writes of a handler that throws; the model keeps them visible, so
  that "no state change" is a statement about the handler.)
\<close>

definition startTour :: "db \<Rightarrow> timestamp \<Rightarrow> string \<Rightarrow> string \<Rightarrow> db \<times> (error + Id)" where
  "startTour s now tid uid =
     (let (tbl, analyticsId) =
            db_insert (tourAnalytics s)
              \<lparr>creationTime = now, tourId = tid, userId = uid, startedAt = now,
               completedAt = None, abandonedAt = None, stepProgress = []\<rparr>
      in (s\<lparr>tourAnalytics := tbl\<rparr>, Inr analyticsId))"

text \<open>\<^verbatim>\<open>Array.prototype.findIndex\<close>: the first index whose element satisfies \<open>p\<close>, or \<open>-1\<close>.\<close>

fun findIndex :: "('a \<Rightarrow> bool) \<Rightarrow> 'a list \<Rightarrow> int" where
  "findIndex p [] = -1"
| "findIndex p (x # xs) =
     (if p x then 0 else (let i = findIndex p xs in if i \<ge> 0 then i + 1 else -1))"

text \<open>The array \<^verbatim>\<open>updatedProgress\<close> that \<^verbatim>\<open>completeStep\<close> writes back.\<close>

definition updatedProgress :: "timestamp \<Rightarrow> string \<Rightarrow> StepProgress list \<Rightarrow> StepProgress list" where
  "updatedProgress now sid progress =
     (let stepIndex = findIndex (\<lambda>step. stepId step = sid) progress
      in if stepIndex \<ge> 0
         then progress[nat stepIndex := (progress ! nat stepIndex)\<lparr>step_completedAt := Some now\<rparr>]
         else progress @ [\<lparr>stepId = sid, step_startedAt = now, step_completedAt = Some now\<rparr>])"

definition completeStep :: "db \<Rightarrow> timestamp \<Rightarrow> Id \<Rightarrow> string \<Rightarrow> db \<times> (error + Id)" where
  "completeStep s now analyticsId sid =
     (case db_get (tourAnalytics s) analyticsId of
        None \<Rightarrow> (s, Inl AnalyticsRecordNotFound)
      | Some analyticsRecord \<Rightarrow>
          (case db_patch (tourAnalytics s) analyticsId
                  (\<lambda>d. d\<lparr>stepProgress := updatedProgress now sid (stepProgress analyticsRecord)\<rparr>) of
             Inl e \<Rightarrow> (s, Inl e)
           | Inr tbl \<Rightarrow> (s\<lparr>tourAnalytics := tbl\<rparr>, Inr analyticsId)))"

definition completeTour :: "db \<Rightarrow> timestamp \<Rightarrow> Id \<Rightarrow> db \<times> (error + Id)" where
  "completeTour s now analyticsId =
     (case db_patch (tourAnalytics s) analyticsId (\<lambda>d. d\<lparr>completedAt := Some now\<rparr>) of
        Inl e \<Rightarrow> (s, Inl e)
      | Inr tbl \<Rightarrow> (s\<lparr>tourAnalytics := tbl\<rparr>, Inr analyticsId))"

definition abandonTour :: "db \<Rightarrow> timestamp \<Rightarrow> Id \<Rightarrow> db \<times> (error + Id)" where
  "abandonTour s now analyticsId =
     (case db_patch (tourAnalytics s) analyticsId (\<lambda>d. d\<lparr>abandonedAt := Some now\<rparr>) of
        Inl e \<Rightarrow> (s, Inl e)
      | Inr tbl \<Rightarrow> (s\<lparr>tourAnalytics := tbl\<rparr>, Inr analyticsId))"

text \<open>
  A call of one of the four mutations of the tracker, and the store after a sequence of
  such calls, each at its own clock reading. The store after a call is the one the
  handler leaves, whether it returned or threw.
\<close>

datatype call = StartTour string string | CompleteStep Id string | CompleteTour Id | AbandonTour Id

fun apply_call :: "db \<Rightarrow> timestamp \<times> call \<Rightarrow> db" where
  "apply_call s (now, StartTour tid uid) = fst (startTour s now tid uid)"
| "apply_call s (now, CompleteStep i sid) = fst (completeStep s now i sid)"
| "apply_call s (now, CompleteTour i) = fst (completeTour s now i)"
| "apply_call s (now, AbandonTour i) = fst (abandonTour s now i)"

definition run_calls :: "db \<Rightarrow> (timestamp \<times> call) list \<Rightarrow> db" where
  "run_calls s cs = foldl apply_call s cs"

definition empty_db :: db where
  "empty_db = \<lparr>tourAnalytics = [], tours = [], steps = [], others = [], is_id = (\<lambda>s. True)\<rparr>"

section \<open>JavaScript values the aggregator relies on\<close>

text \<open>
  Truthiness of a value of type \<^verbatim>\<open>number | undefined\<close>, as in
  \<^verbatim>\<open>analytics.filter((a) => a.completedAt)\<close>: \<^verbatim>\<open>undefined\<close> and \<open>0\<close> are falsy.
\<close>

definition truthy :: "timestamp option \<Rightarrow> bool" where
  "truthy v = (case v of None \<Rightarrow> False | Some t \<Rightarrow> t \<noteq> 0)"

text \<open>
  A plain object used as a dictionary (\<^verbatim>\<open>const stepCompletion: Record<...> = {}\<close>) is
  modelled by its own properties in the order of their creation. Two rules of the
  language show through such an object. A read \<^verbatim>\<open>obj[key]\<close> that finds no own property
  continues in \<^verbatim>\<open>Object.prototype\<close>, whose members are all truthy; and the own keys are
  enumerated (\<^verbatim>\<open>Object.entries\<close>, by \<^verbatim>\<open>OrdinaryOwnPropertyKeys\<close> of the language
  standard) with the array indices first, in ascending numeric order, followed by the
  other strings in the order of creation. An array index is the canonical decimal
  numeral of an integer from \<open>0\<close> to \<open>2\<^sup>3\<^sup>2 - 2\<close>.
\<close>

type_synonym 'v js_object = "(string \<times> 'v) list"

definition Object_prototype_members :: "string list" where
  "Object_prototype_members =
     [''constructor'', ''hasOwnProperty'', ''isPrototypeOf'', ''propertyIsEnumerable'',
      ''toLocaleString'', ''toString'', ''valueOf'', ''__proto__'',
      ''__defineGetter__'', ''__defineSetter__'', ''__lookupGetter__'', ''__lookupSetter__'']"

definition is_digit :: "char \<Rightarrow> bool" where
  "is_digit c = (c \<in> set ''0123456789'')"

definition decimal_value :: "string \<Rightarrow> nat" where
  "decimal_value s = foldl (\<lambda>n c. 10 * n + (of_char c - 48)) 0 s"

definition is_array_index :: "string \<Rightarrow> bool" where
  "is_array_index s =
     (s \<noteq> [] \<and> list_all is_digit s \<and> (s = ''0'' \<or> hd s \<noteq> CHR ''0'')
      \<and> decimal_value s < 4294967295)"

definition object_entries :: "'v js_object \<Rightarrow> (string \<times> 'v) list" where
  "object_entries obj =
     sort_key (\<lambda>(k, v). decimal_value k) (filter (\<lambda>(k, v). is_array_index k) obj)
     @ filter (\<lambda>(k, v). \<not> is_array_index k) obj"

text \<open>
  A \<^verbatim>\<open>Map\<close> keeps its keys in insertion order, and \<^verbatim>\<open>set\<close> on a key it already has
  keeps the key's place.
\<close>

definition map_set :: "('k \<times> 'v) list \<Rightarrow> 'k \<Rightarrow> 'v \<Rightarrow> ('k \<times> 'v) list" where
  "map_set m k v =
     (if map_of m k = None then m @ [(k, v)]
      else map (\<lambda>(k', v'). if k' = k then (k', v) else (k', v')) m)"

text \<open>The string of a number in a template literal, for an integer.\<close>

fun string_of_nat :: "nat \<Rightarrow> string" where
  "string_of_nat n =
     (if n < 10 then [''0123456789'' ! n]
      else string_of_nat (n div 10) @ [''0123456789'' ! (n mod 10)])"

declare string_of_nat.simps [simp del]

definition string_of_int :: "int \<Rightarrow> string" where
  "string_of_int i = (if i < 0 then CHR ''-'' # string_of_nat (nat (- i)) else string_of_nat (nat i))"

text \<open>
  A number is an IEEE 754 double, and \<^verbatim>\<open>/\<close> and \<^verbatim>\<open>*\<close> return the exact quotient and
  product rounded to the nearest double, a tie going to the even significand. The model
  takes a finite double as the real number it denotes and rounds to 53 significant bits;
  it has no bound on the exponent, which the numbers met here never reach (a count is an
  integer below \<open>2\<^sup>5\<^sup>3\<close>, so a quotient of counts is \<open>0\<close> or lies between \<open>2\<^sup>-\<^sup>5\<^sup>3\<close> and
  \<open>2\<^sup>5\<^sup>3\<close>). \<open>ilog2 n\<close> and \<open>clog2 n\<close> are the binary logarithm of \<open>n\<close> rounded down
  and up; \<open>binade x\<close> is, for \<open>x > 0\<close>, the exponent \<open>e\<close> with \<open>2\<^sup>e \<le> x < 2\<^sup>e\<^sup>+\<^sup>1\<close>.
\<close>

fun ilog2 :: "nat \<Rightarrow> nat" where
  "ilog2 n = (if n < 2 then 0 else Suc (ilog2 (n div 2)))"

declare ilog2.simps [simp del]

definition clog2 :: "nat \<Rightarrow> nat" where
  "clog2 n = (if n \<le> 1 then 0 else Suc (ilog2 (n - 1)))"

definition binade :: "real \<Rightarrow> int" where
  "binade x =
     (if 1 \<le> x then int (ilog2 (nat \<lfloor>x\<rfloor>)) else - int (clog2 (nat \<lceil>1 / x\<rceil>)))"

definition round_ties_even :: "real \<Rightarrow> int" where
  "round_ties_even x =
     (let f = \<lfloor>x\<rfloor>; d = x - of_int f
      in if d < 1 / 2 then f else if 1 / 2 < d then f + 1 else if even f then f else f + 1)"

definition round64 :: "real \<Rightarrow> real" where
  "round64 x =
     (if x = 0 then 0
      else let u = 2 powi (binade \<bar>x\<bar> - 52)
           in sgn x * of_int (round_ties_even (\<bar>x\<bar> / u)) * u)"

text \<open>
  The two operations on finite doubles. The handlers divide only behind the guard
  \<^verbatim>\<open>n > 0\<close>, so the quotient by \<open>0\<close> (\<^verbatim>\<open>Infinity\<close> or \<^verbatim>\<open>NaN\<close> in the language) is never
  asked for.
\<close>

definition js_div :: "real \<Rightarrow> real \<Rightarrow> real" where
  "js_div a b = round64 (a / b)"

definition js_mul :: "real \<Rightarrow> real \<Rightarrow> real" where
  "js_mul a b = round64 (a * b)"

section \<open>Analytics aggregation\<close>

record TourAnalyticsResult =
  totalStarted :: nat
  totalCompleted :: nat
  completionRate :: real
  stepCompletionRates :: "(string \<times> real) list"

text \<open>
  \<^verbatim>\<open>.withIndex('by_tour', (q) => q.eq('tourId', tourId)).collect()\<close>: the documents of the
  tour, in creation order.
\<close>

definition query_by_tour :: "db \<Rightarrow> string \<Rightarrow> TourAnalytics list" where
  "query_by_tour s tid = map snd (filter (\<lambda>(i, d). tourId d = tid) (tourAnalytics s))"

text \<open>
  The percentage \<^verbatim>\<open>n > 0 ? (k / n) * 100 : 0\<close> of two counts, in doubles: the quotient
  is rounded, and so is its product with 100.
\<close>

definition rate :: "nat \<Rightarrow> nat \<Rightarrow> real" where
  "rate k n = (if n > 0 then js_mul (js_div (real k) (real n)) 100 else 0)"

text \<open>
  The body of the inner loop of \<^verbatim>\<open>getTourAnalytics\<close> on one entry. The value of a key is
  the pair \<open>(started, completed)\<close>. For a step identifier that names a member of
  \<^verbatim>\<open>Object.prototype\<close> the test \<^verbatim>\<open>!stepCompletion[step.stepId]\<close> finds that member, so
  no own property is created and the two increments write fields of the inherited
  member: \<open>stepCompletion\<close> itself stays as it is.
\<close>

definition tallyStep :: "(nat \<times> nat) js_object \<Rightarrow> StepProgress \<Rightarrow> (nat \<times> nat) js_object" where
  "tallyStep stepCompletion step =
     (if stepId step \<in> set Object_prototype_members then stepCompletion
      else
        let created =
              (if map_of stepCompletion (stepId step) = None
               then stepCompletion @ [(stepId step, (0, 0))] else stepCompletion);
            started =
              map (\<lambda>(k, (st, co)). if k = stepId step then (k, (st + 1, co)) else (k, (st, co)))
                created
        in if truthy (step_completedAt step)
           then map (\<lambda>(k, (st, co)). if k = stepId step then (k, (st, co + 1)) else (k, (st, co)))
                  started
           else started)"

definition getTourAnalytics :: "db \<Rightarrow> string \<Rightarrow> TourAnalyticsResult" where
  "getTourAnalytics s tid =
     (let analytics = query_by_tour s tid;
          started = length analytics;
          completed = length (filter (\<lambda>a. truthy (completedAt a)) analytics);
          stepCompletion =
            foldl (\<lambda>obj record. foldl tallyStep obj (stepProgress record)) [] analytics
      in \<lparr>totalStarted = started,
          totalCompleted = completed,
          completionRate = rate completed started,
          stepCompletionRates =
            map (\<lambda>(sid, (st, co)). (sid, rate co st)) (object_entries stepCompletion)\<rparr>)"







text \<open>\<^verbatim>\<open>.order('desc').take(n)\<close>: the \<open>n\<close> documents created last, the newest first.\<close>

definition recent :: "nat \<Rightarrow> db \<Rightarrow> (Id \<times> TourAnalytics) list" where
  "recent n s = take n (rev (tourAnalytics s))"


text \<open>
  The local calendar of \<^verbatim>\<open>Date\<close> depends on the time zone of the host; its three getters
  are parameters of the model.
\<close>

record calendar =
  getFullYear :: "timestamp \<Rightarrow> int"
  getMonth :: "timestamp \<Rightarrow> int"
  getDate :: "timestamp \<Rightarrow> int"

definition dayKey :: "calendar \<Rightarrow> timestamp \<Rightarrow> string" where
  "dayKey cal t =
     string_of_int (getFullYear cal t) @ ''-'' @ string_of_int (getMonth cal t + 1) @ ''-''
     @ string_of_int (getDate cal t)"

record PerTour =
  pt_tourId :: Id
  pt_name :: "string option"
  pt_completionRate :: real
  pt_stepsCount :: nat

record DayCount =
  date :: string
  completions :: nat

record OwnerSummary =
  perTour :: "PerTour list"
  completionsByDay :: "DayCount list"

definition perTourOf :: "db \<Rightarrow> Id \<times> Tour \<Rightarrow> PerTour" where
  "perTourOf s p =
     (let analytics = query_by_tour s (fst p);
          started = length analytics;
          completed = length (filter (\<lambda>a. truthy (completedAt a)) analytics)
      in \<lparr>pt_tourId = fst p,
          pt_name = tour_name (snd p),
          pt_completionRate = rate completed started,
          pt_stepsCount = (case tour_steps (snd p) of Some xs \<Rightarrow> length xs | None \<Rightarrow> 0)\<rparr>)"

text \<open>The loop over \<open>recent\<close> that fills the map \<open>byDay\<close>.\<close>

definition countDay :: "calendar \<Rightarrow> (string \<times> nat) list \<Rightarrow> Id \<times> TourAnalytics \<Rightarrow> (string \<times> nat) list" where
  "countDay cal byDay r =
     (let k = dayKey cal (startedAt (snd r))
      in map_set byDay k ((case map_of byDay k of None \<Rightarrow> 0 | Some n \<Rightarrow> n) + 1))"

definition byDayOf :: "calendar \<Rightarrow> (Id \<times> TourAnalytics) list \<Rightarrow> (string \<times> nat) list" where
  "byDayOf cal rs = foldl (countDay cal) [] rs"

definition getOwnerAnalyticsSummary :: "db \<Rightarrow> calendar \<Rightarrow> string \<Rightarrow> OwnerSummary" where
  "getOwnerAnalyticsSummary s cal owner =
     \<lparr>perTour = map (perTourOf s) (filter (\<lambda>(i, t). ownerId t = owner) (tours s)),
      completionsByDay =
        map (\<lambda>(d, n). \<lparr>date = d, completions = n\<rparr>) (rev (take 7 (byDayOf cal (recent 50 s))))\<rparr>"

section \<open>Deleting a step\<close>

text \<open>
  \<^verbatim>\<open>.withIndex("by_tourId_order", (q) => q.eq("tourId", t)).collect()\<close>: the steps of the
  tour by ascending \<open>order\<close>, steps of equal \<open>order\<close> in creation order.
\<close>

definition query_by_tourId_order :: "(Id \<times> Step) list \<Rightarrow> Id \<Rightarrow> (Id \<times> Step) list" where
  "query_by_tourId_order tbl t =
     sort_key (\<lambda>(i, d). step_order d) (filter (\<lambda>(i, d). step_tourId d = t) tbl)"

text \<open>
  The loop \<^verbatim>\<open>for (let i = 0; i < remainingSteps.length; i++)\<close>, from index \<open>i\<close> on: the
  table as the loop leaves it, and the error of the write that threw, if one did.
\<close>

function reorderLoop ::
  "(Id \<times> Step) list \<Rightarrow> (Id \<times> Step) list \<Rightarrow> nat \<Rightarrow> (Id \<times> Step) list \<times> (error + unit)" where
  "reorderLoop tbl remainingSteps i =
     (if i < length remainingSteps
      then (case db_patch tbl (fst (remainingSteps ! i)) (\<lambda>d. d\<lparr>step_order := int i + 1\<rparr>) of
              Inl e \<Rightarrow> (tbl, Inl e)
            | Inr tbl' \<Rightarrow> reorderLoop tbl' remainingSteps (i + 1))
      else (tbl, Inr ()))"
  by pat_completeness auto
termination
  by (relation "measure (\<lambda>(tbl, remainingSteps, i). length remainingSteps - i)") auto

declare reorderLoop.simps [simp del]

text \<open>
  \<open>identity\<close> is the subject of \<^verbatim>\<open>ctx.auth.getUserIdentity()\<close>, \<open>None\<close> for a caller that
  is not signed in.
\<close>

definition deleteStep :: "db \<Rightarrow> string option \<Rightarrow> Id \<Rightarrow> db \<times> (error + unit)" where
  "deleteStep s identity i =
     (case identity of
        None \<Rightarrow> (s, Inl Unauthorized)
      | Some subject \<Rightarrow>
          (case db_get (steps s) i of
             None \<Rightarrow> (s, Inl StepNotFound)
           | Some step \<Rightarrow>
               (case db_get (tours s) (step_tourId step) of
                  None \<Rightarrow> (s, Inl Unauthorized)
                | Some tour \<Rightarrow>
                    if tour_userId tour \<noteq> subject then (s, Inl Unauthorized)
                    else
                      (case db_delete (steps s) i of
                         Inl e \<Rightarrow> (s, Inl e)
                       | Inr tbl \<Rightarrow>
                           (let remainingSteps = query_by_tourId_order tbl (step_tourId step);
                                (tbl', r) = reorderLoop tbl remainingSteps 0
                            in (s\<lparr>steps := tbl'\<rparr>, r))))))"

section \<open>Notions for stating what the handlers do\<close>

text \<open>
  The distinct elements of a list in the order of their first occurrence, and the order
  in which an object enumerates keys that were created in the order \<open>ks\<close>.
\<close>

definition first_seen :: "'a list \<Rightarrow> 'a list" where
  "first_seen xs = rev (remdups (rev xs))"

definition own_key_order :: "string list \<Rightarrow> string list" where
  "own_key_order ks =
     sort_key decimal_value (filter is_array_index ks) @ filter (\<lambda>k. \<not> is_array_index k) ks"

text \<open>
  The Step Progress Entries of a tour's records in the order in which the two loops of
  \<open>getTourAnalytics\<close> visit them, and for a step identifier the number of its entries
  and the number of its entries with a completion timestamp.
\<close>

definition tour_entries :: "db \<Rightarrow> string \<Rightarrow> StepProgress list" where
  "tour_entries s tid = concat (map stepProgress (query_by_tour s tid))"

definition step_started :: "StepProgress list \<Rightarrow> string \<Rightarrow> nat" where
  "step_started es k = length (filter (\<lambda>e. stepId e = k) es)"

definition step_completed :: "StepProgress list \<Rightarrow> string \<Rightarrow> nat" where
  "step_completed es k = length (filter (\<lambda>e. stepId e = k \<and> step_completedAt e \<noteq> None) es)"

text \<open>What the two loops leave in \<open>stepCompletion\<close>: its keys, and the pair of a key.\<close>

definition tally_of :: "StepProgress list \<Rightarrow> string \<Rightarrow> nat \<times> nat" where
  "tally_of es k =
     (length (filter (\<lambda>e. stepId e = k) es),
      length (filter (\<lambda>e. stepId e = k \<and> truthy (step_completedAt e)) es))"

definition tallied_keys :: "StepProgress list \<Rightarrow> string list" where
  "tallied_keys es = first_seen (filter (\<lambda>k. k \<notin> set Object_prototype_members) (map stepId es))"

text \<open>
  The local calendar day of a timestamp: year, month and day of the month as the
  getters of \<^verbatim>\<open>Date\<close> give them. Triples are compared lexicographically, so the order of
  these triples is the order of the days.
\<close>

definition ymd :: "calendar \<Rightarrow> timestamp \<Rightarrow> int \<times> int \<times> int" where
  "ymd cal t = (getFullYear cal t, getMonth cal t, getDate cal t)"

text \<open>
  What makes "recent" and "chronological" meaningful for the records \<open>rs\<close> of a window
  listed newest first: their start times do not increase along the list (the clock did
  not run backwards between two \<open>startTour\<close> calls), and a later start time never lies
  on an earlier day of the calendar.
\<close>

definition chronological :: "calendar \<Rightarrow> (Id \<times> TourAnalytics) list \<Rightarrow> bool" where
  "chronological cal rs =
     (sorted_wrt (\<ge>) (map (\<lambda>r. startedAt (snd r)) rs)
      \<and> list_all (\<lambda>r. list_all (\<lambda>r'.
            startedAt (snd r) \<le> startedAt (snd r')
              \<longrightarrow> ymd cal (startedAt (snd r)) \<le> ymd cal (startedAt (snd r'))) rs) rs)"

text \<open>
  What the loop of \<open>deleteStep\<close> does to one document, from index \<open>i\<close> on: a document
  listed in \<open>remainingSteps\<close> (here by its identifier, in \<open>ids\<close>) at an index \<open>k\<close> from
  \<open>i\<close> on gets the ordinal \<open>k + 1\<close>, every other document stays.
\<close>

definition renumbered :: "Id list \<Rightarrow> nat \<Rightarrow> Id \<times> Step \<Rightarrow> Id \<times> Step" where
  "renumbered ids i p =
     (let k = findIndex (\<lambda>x. x = fst p) ids
      in if k \<ge> int i then (fst p, (snd p)\<lparr>step_order := k + 1\<rparr>) else p)"

section \<open>Sample stores\<close>

text \<open>
  A store with one Progress Record, abandoned at time 1500, whose user completed two
  steps before.
\<close>

definition abandoned_db :: db where
  "abandoned_db =
     \<lparr>tourAnalytics =
        [(''k'', \<lparr>creationTime = 1000, tourId = ''T'', userId = ''u'', startedAt = 1000,
                 completedAt = None, abandonedAt = Some 1500,
                 stepProgress =
                   [\<lparr>stepId = ''s1'', step_startedAt = 1100, step_completedAt = Some 1100\<rparr>,
                    \<lparr>stepId = ''s2'', step_startedAt = 1200, step_completedAt = Some 1200\<rparr>]\<rparr>)],
      tours = [], steps = [], others = [], is_id = (\<lambda>s. True)\<rparr>"

text \<open>
  A store with eleven Progress Records, in creation order: ten of tour \<open>T\<close>, of which the
  first four are completed, and one of a tour that is no longer in the store. The records
  start on nine consecutive days (a day has 86400000 milliseconds). In the first record
  the user completed step \<open>2\<close> before step \<open>1\<close>; the second record has an entry of step
  \<open>1\<close> with no completion timestamp.
\<close>

definition sample_record ::
  "string \<Rightarrow> int \<Rightarrow> timestamp option \<Rightarrow> StepProgress list \<Rightarrow> TourAnalytics" where
  "sample_record tid day c sp =
     \<lparr>creationTime = day * 86400000, tourId = tid, userId = ''u'', startedAt = day * 86400000,
      completedAt = c, abandonedAt = None, stepProgress = sp\<rparr>"

definition sample_db :: db where
  "sample_db =
     \<lparr>tourAnalytics =
        [(''a0'', sample_record ''T'' 1 (Some 90000000)
                   [\<lparr>stepId = ''2'', step_startedAt = 86400001, step_completedAt = Some 86400001\<rparr>,
                    \<lparr>stepId = ''1'', step_startedAt = 86400002, step_completedAt = Some 86400002\<rparr>]),
         (''a1'', sample_record ''T'' 1 (Some 90000000)
                   [\<lparr>stepId = ''1'', step_startedAt = 86400003, step_completedAt = None\<rparr>]),
         (''a2'', sample_record ''T'' 2 (Some 180000000) []),
         (''a3'', sample_record ''T'' 3 (Some 270000000) []),
         (''a4'', sample_record ''T'' 4 None []),
         (''a5'', sample_record ''T'' 5 None []),
         (''a6'', sample_record ''T'' 6 None []),
         (''a7'', sample_record ''T'' 7 None []),
         (''a8'', sample_record ''T'' 8 None []),
         (''a9'', sample_record ''T'' 9 None []),
         (''b0'', sample_record ''gone'' 9 None [])],
      tours = [(''T'', \<lparr>tour_name = Some ''Welcome'', ownerId = ''o'', tour_userId = ''o'',
                        tour_steps = None\<rparr>)],
      steps = [],
      others = [], is_id = (\<lambda>s. True)\<rparr>"

text \<open>
  A calendar for the sample stores: the local calendar of a host in UTC during January
  1970, when the day of the month is one more than the number of whole days since the
  epoch.
\<close>

definition sample_calendar :: calendar where
  "sample_calendar =
     \<lparr>getFullYear = (\<lambda>t. 1970), getMonth = (\<lambda>t. 0), getDate = (\<lambda>t. 1 + t div 86400000)\<rparr>"

text \<open>
  A store with three Progress Records of tour \<open>T\<close>. The first has entries for the
  steps \<open>b\<close>, \<open>10\<close>, \<open>constructor\<close>, \<open>9\<close> and \<open>c\<close>, all completed; the second has entries
  for \<open>b\<close> and \<open>c\<close> with no completion timestamp and a completed entry for \<open>9\<close>; the
  third has an entry for \<open>c\<close> with no completion timestamp.
\<close>

definition steps_db :: db where
  "steps_db =
     \<lparr>tourAnalytics =
        [(''r0'', sample_record ''T'' 1 None
                   [\<lparr>stepId = ''b'', step_startedAt = 86400001, step_completedAt = Some 86400001\<rparr>,
                    \<lparr>stepId = ''10'', step_startedAt = 86400002, step_completedAt = Some 86400002\<rparr>,
                    \<lparr>stepId = ''constructor'', step_startedAt = 86400003,
                       step_completedAt = Some 86400003\<rparr>,
                    \<lparr>stepId = ''9'', step_startedAt = 86400004, step_completedAt = Some 86400004\<rparr>,
                    \<lparr>stepId = ''c'', step_startedAt = 86400005, step_completedAt = Some 86400005\<rparr>]),
         (''r1'', sample_record ''T'' 1 None
                   [\<lparr>stepId = ''b'', step_startedAt = 86400006, step_completedAt = None\<rparr>,
                    \<lparr>stepId = ''9'', step_startedAt = 86400007, step_completedAt = Some 86400007\<rparr>,
                    \<lparr>stepId = ''c'', step_startedAt = 86400008, step_completedAt = None\<rparr>]),
         (''r2'', sample_record ''T'' 1 None
                   [\<lparr>stepId = ''c'', step_startedAt = 86400009, step_completedAt = None\<rparr>])],
      tours = [], steps = [], others = [], is_id = (\<lambda>s. True)\<rparr>"

text \<open>
  A store with twenty Progress Records of tour \<open>R\<close>, of which the first eleven are
  completed.
\<close>

definition twenty_db :: db where
  "twenty_db =
     \<lparr>tourAnalytics =
        map (\<lambda>n. (string_of_nat n,
                  sample_record ''R'' 1 (if n < 11 then Some 90000000 else None) []))
          [0..<20],
      tours = [], steps = [], others = [], is_id = (\<lambda>s. True)\<rparr>"


text \<open>
  A store with a tour of five steps, listed in the table in another order than their
  ordinals, and one step of another tour.
\<close>

definition five_steps_db :: db where
  "five_steps_db =
     \<lparr>tourAnalytics = [],
      tours = [(''T'', \<lparr>tour_name = Some ''Welcome'', ownerId = ''o'', tour_userId = ''o'',
                        tour_steps = None\<rparr>)],
      steps =
        [(''s3'', \<lparr>step_tourId = ''T'', step_stepId = ''c'', step_order = 3\<rparr>),
         (''s1'', \<lparr>step_tourId = ''T'', step_stepId = ''a'', step_order = 1\<rparr>),
         (''x1'', \<lparr>step_tourId = ''U'', step_stepId = ''a'', step_order = 1\<rparr>),
         (''s2'', \<lparr>step_tourId = ''T'', step_stepId = ''b'', step_order = 2\<rparr>),
         (''s5'', \<lparr>step_tourId = ''T'', step_stepId = ''e'', step_order = 5\<rparr>),
         (''s4'', \<lparr>step_tourId = ''T'', step_stepId = ''d'', step_order = 4\<rparr>)],
      others = [], is_id = (\<lambda>s. True)\<rparr>"

text \<open>The same store after the second step of the tour was deleted.\<close>

definition four_steps_db :: db where
  "four_steps_db =
     \<lparr>tourAnalytics = [],
      tours = [(''T'', \<lparr>tour_name = Some ''Welcome'', ownerId = ''o'', tour_userId = ''o'',
                        tour_steps = None\<rparr>)],
      steps =
        [(''s3'', \<lparr>step_tourId = ''T'', step_stepId = ''c'', step_order = 2\<rparr>),
         (''s1'', \<lparr>step_tourId = ''T'', step_stepId = ''a'', step_order = 1\<rparr>),
         (''x1'', \<lparr>step_tourId = ''U'', step_stepId = ''a'', step_order = 1\<rparr>),
         (''s5'', \<lparr>step_tourId = ''T'', step_stepId = ''e'', step_order = 4\<rparr>),
         (''s4'', \<lparr>step_tourId = ''T'', step_stepId = ''d'', step_order = 3\<rparr>)],
      others = [], is_id = (\<lambda>s. True)\<rparr>"

section \<open>Lemmas on the store\<close>

lemma map_of_patched:
  "map_of (map (\<lambda>(j, d). if j = i then (j, f d) else (j, d)) tbl) k =
     (if k = i then map_option f (map_of tbl k) else map_of tbl k)"
  by (induction tbl) auto

lemma db_get_patch_same:
  "db_patch tbl i f = Inr tbl' \<Longrightarrow> db_get tbl' i = map_option f (db_get tbl i)"
  unfolding db_patch_def db_get_def
  by (cases "map_of tbl i = None") (auto simp: map_of_patched)

lemma db_get_patch_other:
  "db_patch tbl i f = Inr tbl' \<Longrightarrow> j \<noteq> i \<Longrightarrow> db_get tbl' j = db_get tbl j"
  unfolding db_patch_def db_get_def
  by (cases "map_of tbl i = None") (auto simp: map_of_patched)

lemma db_patch_ids:
  "db_patch tbl i f = Inr tbl' \<Longrightarrow> map fst tbl' = map fst tbl"
  by (auto simp: db_patch_def split: if_splits)

lemma db_patch_missing:
  "db_get tbl i = None \<Longrightarrow> db_patch tbl i f = Inl NonexistentDocument"
  by (simp add: db_patch_def db_get_def)

lemma db_patch_present:
  "db_get tbl i = Some d \<Longrightarrow> \<exists>tbl'. db_patch tbl i f = Inr tbl'"
  by (simp add: db_patch_def db_get_def)

lemma db_patch_effect:
  assumes "db_get tbl i = Some r"
  shows "\<exists>tbl'. db_patch tbl i f = Inr tbl' \<and> map fst tbl' = map fst tbl
           \<and> (\<forall>j. db_get tbl' j = (if j = i then Some (f r) else db_get tbl j))"
proof -
  from db_patch_present [OF assms, of f] obtain tbl' where p: "db_patch tbl i f = Inr tbl'"
    by blast
  have "db_get tbl' j = (if j = i then Some (f r) else db_get tbl j)" for j
    using db_get_patch_same [OF p] db_get_patch_other [OF p, of j] assms by simp
  with p db_patch_ids [OF p] show ?thesis by blast
qed

section \<open>Lemmas on the tracker\<close>

lemma findIndex_range: "findIndex p xs = -1 \<or> (0 \<le> findIndex p xs \<and> findIndex p xs < int (length xs))"
  by (induction xs) (auto simp: Let_def)

lemma findIndex_none: "(findIndex p xs < 0) = (\<forall>x \<in> set xs. \<not> p x)"
  using findIndex_range [of p] by (induction xs) (auto simp: Let_def)

lemma findIndex_first:
  "0 \<le> findIndex p xs \<Longrightarrow>
     nat (findIndex p xs) < length xs \<and> p (xs ! nat (findIndex p xs))
     \<and> (\<forall>j < nat (findIndex p xs). \<not> p (xs ! j))"
proof (induction xs)
  case Nil
  then show ?case by simp
next
  case (Cons x xs)
  show ?case
  proof (cases "p x")
    case True
    then show ?thesis by simp
  next
    case False
    with Cons.prems have ge: "0 \<le> findIndex p xs"
      by (simp add: Let_def split: if_splits)
    with False have eq: "nat (findIndex p (x # xs)) = Suc (nat (findIndex p xs))"
      by (simp add: Let_def nat_add_distrib)
    from Cons.IH [OF ge] False show ?thesis
      unfolding eq by (auto simp: less_Suc_eq_0_disj)
  qed
qed

lemma updatedProgress_existing:
  assumes "sid \<in> stepId ` set xs"
  shows "\<exists>k < length xs. stepId (xs ! k) = sid \<and> (\<forall>j < k. stepId (xs ! j) \<noteq> sid)
           \<and> updatedProgress now sid xs = xs[k := (xs ! k)\<lparr>step_completedAt := Some now\<rparr>]"
proof -
  let ?i = "findIndex (\<lambda>step. stepId step = sid) xs"
  from assms have ge: "0 \<le> ?i"
    using findIndex_none [of "\<lambda>step. stepId step = sid" xs] by force
  from findIndex_first [OF ge] ge show ?thesis
    unfolding updatedProgress_def Let_def by auto
qed

lemma updatedProgress_new:
  assumes "sid \<notin> stepId ` set xs"
  shows "updatedProgress now sid xs
           = xs @ [\<lparr>stepId = sid, step_startedAt = now, step_completedAt = Some now\<rparr>]"
proof -
  from assms have "findIndex (\<lambda>step. stepId step = sid) xs < 0"
    using findIndex_none [of "\<lambda>step. stepId step = sid" xs] by force
  then show ?thesis
    unfolding updatedProgress_def Let_def by simp
qed

lemma updatedProgress_ids:
  "map stepId (updatedProgress now sid xs)
     = (if sid \<in> stepId ` set xs then map stepId xs else map stepId xs @ [sid])"
proof (cases "sid \<in> stepId ` set xs")
  case True
  from updatedProgress_existing [OF True, of now] obtain k where
    k: "k < length xs" "stepId (xs ! k) = sid"
       "updatedProgress now sid xs = xs[k := (xs ! k)\<lparr>step_completedAt := Some now\<rparr>]"
    by blast
  have "map stepId (xs[k := (xs ! k)\<lparr>step_completedAt := Some now\<rparr>]) = map stepId xs"
    using k(1) by (simp add: map_update list_update_same_conv)
  with True k(3) show ?thesis by simp
next
  case False
  with updatedProgress_new [OF False, of now] show ?thesis by simp
qed

lemma completeStep_effect:
  assumes "db_get (tourAnalytics s) i = Some r"
  shows "snd (completeStep s now i sid) = Inr i"
    and "db_get (tourAnalytics (fst (completeStep s now i sid))) j
           = (if j = i then Some (r\<lparr>stepProgress := updatedProgress now sid (stepProgress r)\<rparr>)
              else db_get (tourAnalytics s) j)"
    and "map fst (tourAnalytics (fst (completeStep s now i sid))) = map fst (tourAnalytics s)"
    and "tours (fst (completeStep s now i sid)) = tours s"
    and "steps (fst (completeStep s now i sid)) = steps s"
  using db_patch_effect [OF assms,
      of "\<lambda>d. d\<lparr>stepProgress := updatedProgress now sid (stepProgress r)\<rparr>"] assms
  by (auto simp: completeStep_def)

lemma completeTour_effect:
  assumes "db_get (tourAnalytics s) i = Some r"
  shows "snd (completeTour s now i) = Inr i"
    and "db_get (tourAnalytics (fst (completeTour s now i))) j
           = (if j = i then Some (r\<lparr>completedAt := Some now\<rparr>) else db_get (tourAnalytics s) j)"
    and "map fst (tourAnalytics (fst (completeTour s now i))) = map fst (tourAnalytics s)"
    and "tours (fst (completeTour s now i)) = tours s"
    and "steps (fst (completeTour s now i)) = steps s"
  using db_patch_effect [OF assms, of "\<lambda>d. d\<lparr>completedAt := Some now\<rparr>"]
  by (auto simp: completeTour_def)

lemma abandonTour_effect:
  assumes "db_get (tourAnalytics s) i = Some r"
  shows "snd (abandonTour s now i) = Inr i"
    and "db_get (tourAnalytics (fst (abandonTour s now i))) j
           = (if j = i then Some (r\<lparr>abandonedAt := Some now\<rparr>) else db_get (tourAnalytics s) j)"
    and "map fst (tourAnalytics (fst (abandonTour s now i))) = map fst (tourAnalytics s)"
    and "tours (fst (abandonTour s now i)) = tours s"
    and "steps (fst (abandonTour s now i)) = steps s"
  using db_patch_effect [OF assms, of "\<lambda>d. d\<lparr>abandonedAt := Some now\<rparr>"]
  by (auto simp: abandonTour_def)

lemma updatedProgress_at:
  assumes "k < length xs" and "stepId (xs ! k) = sid" and "\<forall>j < k. stepId (xs ! j) \<noteq> sid"
  shows "updatedProgress now sid xs = xs[k := (xs ! k)\<lparr>step_completedAt := Some now\<rparr>]"
proof -
  from assms(1,2) have "sid \<in> stepId ` set xs" by force
  from updatedProgress_existing [OF this, of now] obtain k' where
    k': "k' < length xs" "stepId (xs ! k') = sid" "\<forall>j < k'. stepId (xs ! j) \<noteq> sid"
        "updatedProgress now sid xs = xs[k' := (xs ! k')\<lparr>step_completedAt := Some now\<rparr>]"
    by blast
  have "\<not> k' < k" using assms(3) k'(2) by blast
  moreover have "\<not> k < k'" using assms(2) k'(3) by blast
  ultimately have "k' = k" by simp
  with k'(4) show ?thesis by simp
qed

section \<open>Claims on the tracker\<close>

text \<open>
  Claim C6. When the store holds no Progress Record under the given identifier,
  \<open>completeStep\<close> throws its own "Analytics record not found" and has written nothing.
  \<open>completeTour\<close> and \<open>abandonTour\<close> make no check of their own: their only statement is
  the write, which the store refuses for a document that does not exist, and neither
  handler catches that error, so the call ends with it and the store is as before.
\<close>

theorem missing_record_is_fatal:
  assumes "db_get (tourAnalytics s) analyticsId = None"
  shows "completeStep s now analyticsId sid = (s, Inl AnalyticsRecordNotFound)
         \<and> completeTour s now analyticsId = (s, Inl NonexistentDocument)
         \<and> abandonTour s now analyticsId = (s, Inl NonexistentDocument)"
  using assms db_patch_missing [OF assms]
  by (simp add: completeStep_def completeTour_def abandonTour_def)

theorem missing_record_is_fatal_witness:
  "db_get (tourAnalytics abandoned_db) ''kk'' = None
   \<and> completeStep abandoned_db 2000 ''kk'' ''s1'' = (abandoned_db, Inl AnalyticsRecordNotFound)
   \<and> completeTour abandoned_db 2000 ''kk'' = (abandoned_db, Inl NonexistentDocument)
   \<and> abandonTour abandoned_db 2000 ''kk'' = (abandoned_db, Inl NonexistentDocument)"
proof -
  have h: "db_get (tourAnalytics abandoned_db) ''kk'' = None"
    by (simp add: abandoned_db_def db_get_def)
  from h missing_record_is_fatal [OF h, of 2000 "''s1''"] show ?thesis by simp
qed

text \<open>
  Claim C10. On an existing Progress Record \<open>completeTour\<close> returns the identifier and
  leaves the record equal to the old one with \<open>completedAt\<close> set to the call time;
  \<open>abandonTour\<close> does the same with \<open>abandonedAt\<close>. Every other field of the record, the
  other terminal timestamp among them, and every other record is as before. The
  instance below completes a record that was abandoned: its \<open>abandonedAt\<close> stays.
\<close>

theorem terminal_calls_change_one_field:
  assumes "db_get (tourAnalytics s) i = Some r"
  shows "snd (completeTour s now i) = Inr i
         \<and> (\<forall>j. db_get (tourAnalytics (fst (completeTour s now i))) j
                  = (if j = i then Some (r\<lparr>completedAt := Some now\<rparr>) else db_get (tourAnalytics s) j))
         \<and> snd (abandonTour s now i) = Inr i
         \<and> (\<forall>j. db_get (tourAnalytics (fst (abandonTour s now i))) j
                  = (if j = i then Some (r\<lparr>abandonedAt := Some now\<rparr>) else db_get (tourAnalytics s) j))"
  using completeTour_effect [OF assms] abandonTour_effect [OF assms] by simp

theorem terminal_calls_change_one_field_witness:
  "db_get (tourAnalytics abandoned_db) ''k''
     = Some \<lparr>creationTime = 1000, tourId = ''T'', userId = ''u'', startedAt = 1000,
            completedAt = None, abandonedAt = Some 1500,
            stepProgress = [\<lparr>stepId = ''s1'', step_startedAt = 1100, step_completedAt = Some 1100\<rparr>,
                            \<lparr>stepId = ''s2'', step_startedAt = 1200, step_completedAt = Some 1200\<rparr>]\<rparr>
   \<and> snd (completeTour abandoned_db 2000 ''k'') = Inr ''k''
   \<and> db_get (tourAnalytics (fst (completeTour abandoned_db 2000 ''k''))) ''k''
     = Some \<lparr>creationTime = 1000, tourId = ''T'', userId = ''u'', startedAt = 1000,
            completedAt = Some 2000, abandonedAt = Some 1500,
            stepProgress = [\<lparr>stepId = ''s1'', step_startedAt = 1100, step_completedAt = Some 1100\<rparr>,
                            \<lparr>stepId = ''s2'', step_startedAt = 1200, step_completedAt = Some 1200\<rparr>]\<rparr>"
proof -
  have h: "db_get (tourAnalytics abandoned_db) ''k''
     = Some \<lparr>creationTime = 1000, tourId = ''T'', userId = ''u'', startedAt = 1000,
            completedAt = None, abandonedAt = Some 1500,
            stepProgress = [\<lparr>stepId = ''s1'', step_startedAt = 1100, step_completedAt = Some 1100\<rparr>,
                            \<lparr>stepId = ''s2'', step_startedAt = 1200, step_completedAt = Some 1200\<rparr>]\<rparr>"
    by (simp add: abandoned_db_def db_get_def)
  from h terminal_calls_change_one_field [OF h, of 2000] show ?thesis by simp
qed

text \<open>
  Claim C4. Let the record \<open>r\<close> have an entry for step \<open>sid\<close>, the first one at index
  \<open>k\<close>. Then \<open>completeStep\<close> for \<open>sid\<close> returns the identifier, and the record it leaves
  is \<open>r\<close> with entry \<open>k\<close> replaced by itself with the completion timestamp set to the
  call time: the entry keeps its start timestamp, the collection keeps its length, and
  every other entry, every other field and every other record is as before.
\<close>

theorem completeStep_again_updates_completion_only:
  assumes "db_get (tourAnalytics s) i = Some r"
      and "k < length (stepProgress r)"
      and "stepId (stepProgress r ! k) = sid"
      and "\<forall>j < k. stepId (stepProgress r ! j) \<noteq> sid"
  shows "snd (completeStep s now i sid) = Inr i
         \<and> (\<forall>j. db_get (tourAnalytics (fst (completeStep s now i sid))) j
                = (if j = i
                   then Some (r\<lparr>stepProgress :=
                           (stepProgress r)[k := (stepProgress r ! k)\<lparr>step_completedAt := Some now\<rparr>]\<rparr>)
                   else db_get (tourAnalytics s) j))"
  using completeStep_effect(1,2) [OF assms(1), of now sid] updatedProgress_at [OF assms(2-4), of now]
  by simp

theorem completeStep_again_updates_completion_only_witness:
  "db_get (tourAnalytics abandoned_db) ''k''
     = Some \<lparr>creationTime = 1000, tourId = ''T'', userId = ''u'', startedAt = 1000,
            completedAt = None, abandonedAt = Some 1500,
            stepProgress = [\<lparr>stepId = ''s1'', step_startedAt = 1100, step_completedAt = Some 1100\<rparr>,
                            \<lparr>stepId = ''s2'', step_startedAt = 1200, step_completedAt = Some 1200\<rparr>]\<rparr>
   \<and> snd (completeStep abandoned_db 2000 ''k'' ''s2'') = Inr ''k''
   \<and> db_get (tourAnalytics (fst (completeStep abandoned_db 2000 ''k'' ''s2''))) ''k''
     = Some \<lparr>creationTime = 1000, tourId = ''T'', userId = ''u'', startedAt = 1000,
            completedAt = None, abandonedAt = Some 1500,
            stepProgress = [\<lparr>stepId = ''s1'', step_startedAt = 1100, step_completedAt = Some 1100\<rparr>,
                            \<lparr>stepId = ''s2'', step_startedAt = 1200, step_completedAt = Some 2000\<rparr>]\<rparr>"
proof -
  let ?r = "\<lparr>creationTime = 1000, tourId = ''T'', userId = ''u'', startedAt = 1000,
            completedAt = None, abandonedAt = Some 1500,
            stepProgress = [\<lparr>stepId = ''s1'', step_startedAt = 1100, step_completedAt = Some 1100\<rparr>,
                            \<lparr>stepId = ''s2'', step_startedAt = 1200, step_completedAt = Some 1200\<rparr>]\<rparr>"
  have h: "db_get (tourAnalytics abandoned_db) ''k'' = Some ?r"
    by (simp add: abandoned_db_def db_get_def)
  have k: "(1::nat) < length (stepProgress ?r)" "stepId (stepProgress ?r ! 1) = ''s2''"
          "\<forall>j < (1::nat). stepId (stepProgress ?r ! j) \<noteq> ''s2''"
    by simp_all
  from h completeStep_again_updates_completion_only [OF h k, of 2000] show ?thesis
    by simp
qed

section \<open>Runs of tracker calls\<close>

lemma fresh_id_bound: "i \<in> set used \<Longrightarrow> length i \<le> foldr (\<lambda>i n. max (length i) n) used 0"
  by (induction used) auto

lemma fresh_id_fresh: "fresh_id used \<notin> set used"
proof
  assume "fresh_id used \<in> set used"
  from fresh_id_bound [OF this] show False
    by (simp add: fresh_id_def)
qed

lemma startTour_effect:
  assumes "startTour s0 now tid uid = (s, res)"
  shows "res = Inr (fresh_id (map fst (tourAnalytics s0)))"
    and "tourAnalytics s = tourAnalytics s0 @ [(fresh_id (map fst (tourAnalytics s0)),
            \<lparr>creationTime = now, tourId = tid, userId = uid, startedAt = now,
             completedAt = None, abandonedAt = None, stepProgress = []\<rparr>)]"
  using assms by (auto simp: startTour_def db_insert_def Let_def)

lemma startTour_get:
  assumes "startTour s0 now tid uid = (s, Inr i)"
  shows "db_get (tourAnalytics s) i =
           Some \<lparr>creationTime = now, tourId = tid, userId = uid, startedAt = now,
                 completedAt = None, abandonedAt = None, stepProgress = []\<rparr>"
proof -
  from startTour_effect [OF assms] have i: "i = fresh_id (map fst (tourAnalytics s0))"
    and t: "tourAnalytics s = tourAnalytics s0 @ [(i,
            \<lparr>creationTime = now, tourId = tid, userId = uid, startedAt = now,
             completedAt = None, abandonedAt = None, stepProgress = []\<rparr>)]"
    by auto
  from i fresh_id_fresh [of "map fst (tourAnalytics s0)"] have "map_of (tourAnalytics s0) i = None"
    by (simp add: map_of_eq_None_iff)
  with t show ?thesis by (simp add: db_get_def map_add_def)
qed

lemma db_get_insert_old:
  assumes "db_get tbl i = Some r"
  shows "db_get (fst (db_insert tbl d)) i = Some r"
  using assms by (simp add: db_get_def db_insert_def Let_def map_add_def split: option.splits) 

text \<open>The step identifiers after a run of completeStep calls: each new one is appended.\<close>

lemma run_completeStep:
  assumes "db_get (tourAnalytics s) i = Some r"
  shows "\<exists>r'. db_get (tourAnalytics (run_calls s (map (\<lambda>(now, sid). (now, CompleteStep i sid)) cs))) i = Some r'
           \<and> map stepId (stepProgress r')
               = foldl (\<lambda>ids sid. if sid \<in> set ids then ids else ids @ [sid])
                   (map stepId (stepProgress r)) (map snd cs)"
  using assms
proof (induction cs arbitrary: s r)
  case Nil
  then show ?case by (simp add: run_calls_def)
next
  case (Cons c cs)
  obtain now sid where c: "c = (now, sid)" by (cases c)
  let ?s = "fst (completeStep s now i sid)"
  let ?r = "r\<lparr>stepProgress := updatedProgress now sid (stepProgress r)\<rparr>"
  from completeStep_effect(2) [OF Cons.prems, of now sid i]
  have g: "db_get (tourAnalytics ?s) i = Some ?r" by simp
  from Cons.IH [OF g] c show ?case
    by (simp add: run_calls_def updatedProgress_ids)
qed

lemma add_new_ids:
  "distinct ids \<Longrightarrow>
     distinct (foldl (\<lambda>ids sid. if sid \<in> set ids then ids else ids @ [sid]) ids sids)
     \<and> set (foldl (\<lambda>ids sid. if sid \<in> set ids then ids else ids @ [sid]) ids sids) = set ids \<union> set sids"
  by (induction sids arbitrary: ids) auto

lemma count_distinct:
  "distinct (map f xs) \<Longrightarrow> length (filter (\<lambda>e. f e = a) xs) = (if a \<in> f ` set xs then 1 else 0)"
  by (induction xs) auto

lemma in_patched:
  assumes "db_patch tbl i f = Inr tbl'" and "(j, d') \<in> set tbl'"
  shows "\<exists>d. (j, d) \<in> set tbl \<and> d' = (if j = i then f d else d)"
proof -
  from assms(1) have "tbl' = map (\<lambda>(j, d). if j = i then (j, f d) else (j, d)) tbl"
    by (simp add: db_patch_def split: if_splits)
  with assms(2) obtain p where p: "p \<in> set tbl"
    and e: "(j, d') = (\<lambda>(j, d). if j = i then (j, f d) else (j, d)) p"
    by auto
  obtain j0 d where jd: "p = (j0, d)" by (cases p)
  with e have "j0 = j" and "d' = (if j = i then f d else d)"
    by (auto split: if_splits)
  with p jd show ?thesis by blast
qed

lemma apply_call_steps_distinct:
  assumes "\<forall>(i, r) \<in> set (tourAnalytics s). distinct (map stepId (stepProgress r))"
  shows "\<forall>(i, r) \<in> set (tourAnalytics (apply_call s c)). distinct (map stepId (stepProgress r))"
proof -
  obtain now a where c: "c = (now, a)" by (cases c)
  show ?thesis
  proof (cases a)
    case (StartTour tid uid)
    with c assms show ?thesis
      by (auto simp: startTour_def db_insert_def Let_def)
  next
    case (CompleteStep j sid)
    show ?thesis
    proof (cases "db_get (tourAnalytics s) j")
      case None
      with c CompleteStep assms show ?thesis by (simp add: completeStep_def)
    next
      case (Some r)
      then have "(j, r) \<in> set (tourAnalytics s)"
        by (simp add: db_get_def map_of_SomeD)
      with assms have dr: "distinct (map stepId (stepProgress r))" by auto
      have du: "distinct (map stepId (updatedProgress now sid (stepProgress r)))"
        using dr by (simp add: updatedProgress_ids)
      from db_patch_present [OF Some] obtain tbl' where
        p: "db_patch (tourAnalytics s) j
              (\<lambda>d. d\<lparr>stepProgress := updatedProgress now sid (stepProgress r)\<rparr>) = Inr tbl'"
        by blast
      with Some c CompleteStep have t: "tourAnalytics (apply_call s c) = tbl'"
        by (simp add: completeStep_def)
      have "distinct (map stepId (stepProgress d'))" if "(k, d') \<in> set tbl'" for k d'
      proof -
        from in_patched [OF p that] obtain d where
          d: "(k, d) \<in> set (tourAnalytics s)"
             "d' = (if k = j then d\<lparr>stepProgress := updatedProgress now sid (stepProgress r)\<rparr> else d)"
          by blast
        from d(1) assms have "distinct (map stepId (stepProgress d))" by auto
        with d(2) du show ?thesis by (simp split: if_splits)
      qed
      then show ?thesis
        unfolding t by auto
    qed
  next
    case (CompleteTour j)
    show ?thesis
    proof (cases "db_patch (tourAnalytics s) j (\<lambda>d. d\<lparr>completedAt := Some now\<rparr>)")
      case (Inl e)
      with c CompleteTour assms show ?thesis by (simp add: completeTour_def)
    next
      case (Inr tbl')
      with c CompleteTour have t: "tourAnalytics (apply_call s c) = tbl'"
        by (simp add: completeTour_def)
      have "distinct (map stepId (stepProgress d'))" if "(k, d') \<in> set tbl'" for k d'
      proof -
        from in_patched [OF Inr that] obtain d where
          d: "(k, d) \<in> set (tourAnalytics s)"
             "d' = (if k = j then d\<lparr>completedAt := Some now\<rparr> else d)"
          by blast
        from d(1) assms have "distinct (map stepId (stepProgress d))" by auto
        with d(2) show ?thesis by (simp split: if_splits)
      qed
      then show ?thesis
        unfolding t by auto
    qed
  next
    case (AbandonTour j)
    show ?thesis
    proof (cases "db_patch (tourAnalytics s) j (\<lambda>d. d\<lparr>abandonedAt := Some now\<rparr>)")
      case (Inl e)
      with c AbandonTour assms show ?thesis by (simp add: abandonTour_def)
    next
      case (Inr tbl')
      with c AbandonTour have t: "tourAnalytics (apply_call s c) = tbl'"
        by (simp add: abandonTour_def)
      have "distinct (map stepId (stepProgress d'))" if "(k, d') \<in> set tbl'" for k d'
      proof -
        from in_patched [OF Inr that] obtain d where
          d: "(k, d) \<in> set (tourAnalytics s)"
             "d' = (if k = j then d\<lparr>abandonedAt := Some now\<rparr> else d)"
          by blast
        from d(1) assms have "distinct (map stepId (stepProgress d))" by auto
        with d(2) show ?thesis by (simp split: if_splits)
      qed
      then show ?thesis
        unfolding t by auto
    qed
  qed
qed

text \<open>
  Every store the tracker can reach from the empty one holds records whose entries have
  pairwise different step identifiers.
\<close>

lemma reachable_steps_distinct:
  "\<forall>(i, r) \<in> set (tourAnalytics (run_calls empty_db cs)). distinct (map stepId (stepProgress r))"
proof (induction cs rule: rev_induct)
  case Nil
  then show ?case by (simp add: run_calls_def empty_db_def)
next
  case (snoc c cs)
  from apply_call_steps_distinct [OF snoc.IH, of c] show ?case
    by (simp add: run_calls_def)
qed

lemma apply_call_terminal:
  assumes "db_get (tourAnalytics s) i = Some r"
  shows "\<exists>r'. db_get (tourAnalytics (apply_call s c)) i = Some r'
           \<and> (completedAt r' \<noteq> None) = (completedAt r \<noteq> None \<or> snd c = CompleteTour i)
           \<and> (abandonedAt r' \<noteq> None) = (abandonedAt r \<noteq> None \<or> snd c = AbandonTour i)"
proof -
  obtain now a where c: "c = (now, a)" by (cases c)
  show ?thesis
  proof (cases a)
    case (StartTour tid uid)
    have "tourAnalytics (apply_call s c)
            = fst (db_insert (tourAnalytics s)
                \<lparr>creationTime = now, tourId = tid, userId = uid, startedAt = now,
                 completedAt = None, abandonedAt = None, stepProgress = []\<rparr>)"
      using c StartTour by (simp add: startTour_def split: prod.splits)
    with db_get_insert_old [OF assms] show ?thesis
      using c StartTour by simp
  next
    case (CompleteStep j sid)
    show ?thesis
    proof (cases "db_get (tourAnalytics s) j")
      case None
      with c CompleteStep assms show ?thesis by (simp add: completeStep_def)
    next
      case (Some rj)
      from completeStep_effect(2) [OF Some, of now sid i] c CompleteStep assms Some
      show ?thesis by auto
    qed
  next
    case (CompleteTour j)
    show ?thesis
    proof (cases "db_get (tourAnalytics s) j")
      case None
      with c CompleteTour assms db_patch_missing [OF None] show ?thesis
        by (auto simp: completeTour_def)
    next
      case (Some rj)
      from completeTour_effect(2) [OF Some, of now i] c CompleteTour assms Some
      show ?thesis by auto
    qed
  next
    case (AbandonTour j)
    show ?thesis
    proof (cases "db_get (tourAnalytics s) j")
      case None
      with c AbandonTour assms db_patch_missing [OF None] show ?thesis
        by (auto simp: abandonTour_def)
    next
      case (Some rj)
      from abandonTour_effect(2) [OF Some, of now i] c AbandonTour assms Some
      show ?thesis by auto
    qed
  qed
qed

lemma run_calls_terminal:
  assumes "db_get (tourAnalytics s) i = Some r"
  shows "\<exists>r'. db_get (tourAnalytics (run_calls s cs)) i = Some r'
           \<and> (completedAt r' \<noteq> None) = (completedAt r \<noteq> None \<or> CompleteTour i \<in> snd ` set cs)
           \<and> (abandonedAt r' \<noteq> None) = (abandonedAt r \<noteq> None \<or> AbandonTour i \<in> snd ` set cs)"
proof (induction cs rule: rev_induct)
  case Nil
  with assms show ?case by (simp add: run_calls_def)
next
  case (snoc c cs)
  then obtain r1 where
    r1: "db_get (tourAnalytics (run_calls s cs)) i = Some r1"
        "(completedAt r1 \<noteq> None) = (completedAt r \<noteq> None \<or> CompleteTour i \<in> snd ` set cs)"
        "(abandonedAt r1 \<noteq> None) = (abandonedAt r \<noteq> None \<or> AbandonTour i \<in> snd ` set cs)"
    by blast
  from apply_call_terminal [OF r1(1), of c] obtain r2 where
    r2: "db_get (tourAnalytics (apply_call (run_calls s cs) c)) i = Some r2"
        "(completedAt r2 \<noteq> None) = (completedAt r1 \<noteq> None \<or> snd c = CompleteTour i)"
        "(abandonedAt r2 \<noteq> None) = (abandonedAt r1 \<noteq> None \<or> snd c = AbandonTour i)"
    by blast
  have a: "run_calls s (cs @ [c]) = apply_call (run_calls s cs) c"
    by (simp add: run_calls_def)
  have "(completedAt r2 \<noteq> None)
          = (completedAt r \<noteq> None \<or> CompleteTour i \<in> snd ` set (cs @ [c]))"
    unfolding r2(2) r1(2) by auto
  moreover have "(abandonedAt r2 \<noteq> None)
          = (abandonedAt r \<noteq> None \<or> AbandonTour i \<in> snd ` set (cs @ [c]))"
    unfolding r2(3) r1(3) by auto
  ultimately show ?case
    unfolding a using r2(1) by blast
qed

section \<open>Claims on runs of tracker calls\<close>

text \<open>
  Claim C1. Take a Progress Record whose entries have pairwise different step
  identifiers, as every record the tracker creates or updates has
  (\<open>reachable_steps_distinct\<close>; a record fresh from \<open>startTour\<close> has no entry at all), and
  apply any finite sequence of \<open>completeStep\<close> calls to it, whatever the step identifiers,
  their order and their repetitions. The record still exists afterwards, and for every
  step identifier the number of its entries is one if the identifier was there before
  or was completed by one of the calls, and zero otherwise.
\<close>

theorem completeStep_one_entry_per_step:
  assumes "db_get (tourAnalytics s) i = Some r"
      and "distinct (map stepId (stepProgress r))"
  shows "\<exists>r'. db_get (tourAnalytics
                  (run_calls s (map (\<lambda>(now, sid). (now, CompleteStep i sid)) cs))) i = Some r'
           \<and> (\<forall>sid. length (filter (\<lambda>e. stepId e = sid) (stepProgress r'))
                  = (if sid \<in> stepId ` set (stepProgress r) \<union> snd ` set cs then 1 else 0))"
proof -
  from run_completeStep [OF assms(1), of cs] obtain r' where
    r': "db_get (tourAnalytics (run_calls s (map (\<lambda>(now, sid). (now, CompleteStep i sid)) cs))) i = Some r'"
        "map stepId (stepProgress r')
               = foldl (\<lambda>ids sid. if sid \<in> set ids then ids else ids @ [sid])
                   (map stepId (stepProgress r)) (map snd cs)"
    by blast
  from add_new_ids [OF assms(2), of "map snd cs"] r'(2)
  have d: "distinct (map stepId (stepProgress r'))"
    and m: "stepId ` set (stepProgress r') = stepId ` set (stepProgress r) \<union> snd ` set cs"
    by (simp_all flip: set_map)
  from count_distinct [OF d] m r'(1) show ?thesis by simp
qed


theorem completeStep_one_entry_per_step_witness:
  "db_get (tourAnalytics (fst (startTour empty_db 1000 ''T'' ''u''))) ''k''
     = Some \<lparr>creationTime = 1000, tourId = ''T'', userId = ''u'', startedAt = 1000,
             completedAt = None, abandonedAt = None, stepProgress = []\<rparr>
   \<and> distinct (map stepId ([] :: StepProgress list))
   \<and> (\<exists>r'. db_get (tourAnalytics
                  (run_calls (fst (startTour empty_db 1000 ''T'' ''u''))
                     [(1001, CompleteStep ''k'' ''s1''), (1002, CompleteStep ''k'' ''s2''),
                      (1003, CompleteStep ''k'' ''s1'')])) ''k'' = Some r'
           \<and> (\<forall>sid. length (filter (\<lambda>e. stepId e = sid) (stepProgress r'))
                  = (if sid \<in> {''s1'', ''s2''} then 1 else 0)))"
proof -
  let ?r = "\<lparr>creationTime = 1000, tourId = ''T'', userId = ''u'', startedAt = 1000,
             completedAt = None, abandonedAt = None, stepProgress = []\<rparr>"
  have h: "db_get (tourAnalytics (fst (startTour empty_db 1000 ''T'' ''u''))) ''k'' = Some ?r"
    by (simp add: startTour_def empty_db_def db_insert_def fresh_id_def db_get_def Let_def)
  have d: "distinct (map stepId (stepProgress ?r))" by simp
  have e: "stepId ` set (stepProgress ?r) \<union> snd ` set [(1001::int, ''s1''), (1002, ''s2''), (1003, ''s1'')]
             = {''s1'', ''s2''}"
    by auto
  from completeStep_one_entry_per_step [OF h d,
      of "[(1001, ''s1''), (1002, ''s2''), (1003, ''s1'')]"]
  have "\<exists>r'. db_get (tourAnalytics
                  (run_calls (fst (startTour empty_db 1000 ''T'' ''u''))
                     [(1001, CompleteStep ''k'' ''s1''), (1002, CompleteStep ''k'' ''s2''),
                      (1003, CompleteStep ''k'' ''s1'')])) ''k'' = Some r'
           \<and> (\<forall>sid. length (filter (\<lambda>e. stepId e = sid) (stepProgress r'))
                  = (if sid \<in> {''s1'', ''s2''} then 1 else 0))"
    unfolding e by simp
  with h show ?thesis by simp
qed

text \<open>
  Claim C2, as the code has it. Neither \<open>completeTour\<close> nor \<open>abandonTour\<close> looks at the
  state of the record, so the two terminal timestamps are independent of each other.
  For a record created by \<open>startTour\<close> and any later sequence of tracker calls (on this or
  on other records), the record exists, its \<open>completedAt\<close> is set exactly when the
  sequence has a \<open>completeTour\<close> call for it, and its \<open>abandonedAt\<close> exactly when the
  sequence has an \<open>abandonTour\<close> call for it. So the two are never set together as long
  as the record has not received both kinds of call.
\<close>

theorem terminal_timestamps_follow_calls:
  assumes "startTour s0 t0 tid uid = (s, Inr i)"
  shows "\<exists>r. db_get (tourAnalytics (run_calls s cs)) i = Some r
           \<and> (completedAt r \<noteq> None) = (CompleteTour i \<in> snd ` set cs)
           \<and> (abandonedAt r \<noteq> None) = (AbandonTour i \<in> snd ` set cs)"
  using run_calls_terminal [OF startTour_get [OF assms], of cs] by simp

theorem terminal_timestamps_follow_calls_witness:
  "startTour empty_db 1000 ''T'' ''u''
     = (\<lparr>tourAnalytics =
           [(''k'', \<lparr>creationTime = 1000, tourId = ''T'', userId = ''u'', startedAt = 1000,
                    completedAt = None, abandonedAt = None, stepProgress = []\<rparr>)],
         tours = [], steps = [], others = [], is_id = (\<lambda>s. True)\<rparr>, Inr ''k'')
   \<and> (\<exists>r. db_get (tourAnalytics
              (run_calls (fst (startTour empty_db 1000 ''T'' ''u''))
                 [(1500, CompleteStep ''k'' ''s1''), (2000, AbandonTour ''k'')])) ''k'' = Some r
          \<and> completedAt r = None \<and> abandonedAt r \<noteq> None)"
proof -
  let ?s = "\<lparr>tourAnalytics =
           [(''k'', \<lparr>creationTime = 1000, tourId = ''T'', userId = ''u'', startedAt = 1000,
                    completedAt = None, abandonedAt = None, stepProgress = []\<rparr>)],
         tours = [], steps = [], others = [], is_id = (\<lambda>s. True)\<rparr>"
  have h: "startTour empty_db 1000 ''T'' ''u'' = (?s, Inr ''k'')"
    by (simp add: startTour_def empty_db_def db_insert_def fresh_id_def Let_def)
  from terminal_timestamps_follow_calls [OF h,
      of "[(1500, CompleteStep ''k'' ''s1''), (2000, AbandonTour ''k'')]"] h
  show ?thesis by simp
qed

text \<open>
  The claim as stated fails: after \<open>startTour\<close>, \<open>completeTour\<close> and \<open>abandonTour\<close> on the
  new record, both timestamps are set.
\<close>

theorem lifecycle_exclusion_counterexample:
  "snd (startTour empty_db 1000 ''T'' ''u'') = Inr ''k''
   \<and> db_get (tourAnalytics
        (run_calls (fst (startTour empty_db 1000 ''T'' ''u''))
           [(2000, CompleteTour ''k''), (3000, AbandonTour ''k'')])) ''k''
     = Some \<lparr>creationTime = 1000, tourId = ''T'', userId = ''u'', startedAt = 1000,
             completedAt = Some 2000, abandonedAt = Some 3000, stepProgress = []\<rparr>"
proof -
  let ?r = "\<lparr>creationTime = 1000, tourId = ''T'', userId = ''u'', startedAt = 1000,
             completedAt = None, abandonedAt = None, stepProgress = []\<rparr>"
  let ?s = "\<lparr>tourAnalytics = [(''k'', ?r)], tours = [], steps = [], others = [], is_id = (\<lambda>s. True)\<rparr>"
  have h: "startTour empty_db 1000 ''T'' ''u'' = (?s, Inr ''k'')"
    by (simp add: startTour_def empty_db_def db_insert_def fresh_id_def Let_def)
  have g0: "db_get (tourAnalytics ?s) ''k'' = Some ?r"
    by (simp add: db_get_def)
  let ?s1 = "fst (completeTour ?s 2000 ''k'')"
  from completeTour_effect(2) [OF g0, of 2000 "''k''"]
  have g1: "db_get (tourAnalytics ?s1) ''k'' = Some (?r\<lparr>completedAt := Some 2000\<rparr>)"
    by simp
  from abandonTour_effect(2) [OF g1, of 3000 "''k''"]
  have "db_get (tourAnalytics (fst (abandonTour ?s1 3000 ''k''))) ''k''
          = Some (?r\<lparr>completedAt := Some 2000, abandonedAt := Some 3000\<rparr>)"
    by simp
  with h show ?thesis
    by (simp add: run_calls_def)
qed

section \<open>Lemmas on double-precision arithmetic\<close>

text \<open>
  The rounding is to the nearest number with 53 significant bits: \<open>binade\<close> finds the
  power of two at or below a positive number, and a rounded positive number is off by
  at most half a unit in the last place, that is by at most the fraction \<open>2\<^sup>-\<^sup>5\<^sup>3\<close> of
  the number. So the percentage of two counts as the host computes it is within three
  such fractions of the exact quotient times 100.
\<close>

lemma ilog2_bounds: "0 < n \<Longrightarrow> 2 ^ ilog2 n \<le> n \<and> n < 2 * 2 ^ ilog2 n"
proof (induction n rule: ilog2.induct)
  case (1 n)
  show ?case
  proof (cases "n < 2")
    case True
    with "1.prems" have "n = 1" by simp
    then show ?thesis by (simp add: ilog2.simps)
  next
    case False
    define k :: nat where "k = 2 ^ ilog2 (n div 2)"
    from False have "0 < n div 2" by simp
    with 1 False have "k \<le> n div 2 \<and> n div 2 < 2 * k"
      by (simp add: k_def)
    then have "2 * k \<le> n \<and> n < 2 * (2 * k)" by arith
    moreover have "ilog2 n = Suc (ilog2 (n div 2))"
      using False by (simp add: ilog2.simps [of n])
    ultimately show ?thesis by (simp add: k_def)
  qed
qed

lemma binade_bounds:
  assumes "0 < x"
  shows "2 powi binade x \<le> x \<and> x < 2 powi (binade x + 1)"
proof (cases "1 \<le> x")
  case True
  define n where "n = nat \<lfloor>x\<rfloor>"
  define i where "i = ilog2 n"
  from True have n: "0 < n" "real n \<le> x" "x < real n + 1"
    by (simp_all add: n_def)
  from ilog2_bounds [OF n(1)] have "2 ^ i \<le> n" "n + 1 \<le> 2 * 2 ^ i"
    by (simp_all add: i_def)
  then have "real (2 ^ i) \<le> real n" "real (n + 1) \<le> real (2 * 2 ^ i)"
    by (simp_all only: of_nat_le_iff)
  then have "(2::real) ^ i \<le> real n" "real n + 1 \<le> 2 * 2 ^ i"
    by simp_all
  with n have "(2::real) ^ i \<le> x" "x < 2 * 2 ^ i" by linarith+
  moreover have "binade x = int i"
    using True by (simp add: binade_def n_def i_def)
  moreover have "(2::real) powi (int i + 1) = 2 * 2 ^ i"
    by (simp add: power_int_add)
  ultimately show ?thesis by simp
next
  case False
  define m where "m = nat \<lceil>1 / x\<rceil>"
  define i where "i = ilog2 (m - 1)"
  from False assms have inv: "1 < 1 / x" by simp
  then have "2 \<le> \<lceil>1 / x\<rceil>" by linarith
  then have m2: "2 \<le> m" unfolding m_def by linarith
  have "1 / x \<le> of_int \<lceil>1 / x\<rceil>" "of_int \<lceil>1 / x\<rceil> - 1 < 1 / x"
    by linarith+
  moreover from m2 have "of_int \<lceil>1 / x\<rceil> = real m"
    by (simp add: m_def)
  ultimately have mx: "1 / x \<le> real m" "real m - 1 < 1 / x" by simp_all
  from m2 have "0 < m - 1" by simp
  from ilog2_bounds [OF this] have "2 ^ i + 1 \<le> m" "m \<le> 2 * 2 ^ i"
    unfolding i_def [symmetric] by arith+
  then have "real (2 ^ i + 1) \<le> real m" "real m \<le> real (2 * 2 ^ i)"
    by (simp_all only: of_nat_le_iff)
  then have "(2::real) ^ i \<le> real m - 1" "real m \<le> 2 * 2 ^ i"
    by simp_all
  with mx have b: "(2::real) ^ i < 1 / x" "1 / x \<le> 2 * 2 ^ i" by linarith+
  have p: "(0::real) < 2 ^ i" by simp
  from b(1) assms p have "x * 2 ^ i < 1"
    by (simp add: field_simps)
  then have u: "x < 1 / 2 ^ i"
    using p by (simp add: field_simps)
  from b(2) assms p have "1 \<le> x * (2 * 2 ^ i)"
    by (simp add: field_simps)
  then have l: "1 / (2 * 2 ^ i) \<le> x"
    using p by (simp add: field_simps)
  from m2 have "clog2 m = Suc i"
    by (simp add: clog2_def i_def)
  moreover from False have "binade x = - int (clog2 m)"
    by (simp add: binade_def m_def)
  ultimately have e: "binade x = - (int i + 1)"
    by simp
  have "(2::real) powi (int i + 1) = 2 * 2 ^ i"
    by (simp add: power_int_add)
  then have lo: "(2::real) powi (- (int i + 1)) = 1 / (2 * 2 ^ i)"
    by (simp only: power_int_minus inverse_eq_divide)
  have "- (int i + 1) + 1 = - int i"
    by simp
  then have hi: "(2::real) powi (- (int i + 1) + 1) = 1 / 2 ^ i"
    by (simp only: power_int_minus power_int_of_nat inverse_eq_divide)
  from l u show ?thesis
    unfolding e lo hi by (rule conjI)
qed

lemma round_ties_even_near: "\<bar>of_int (round_ties_even y) - y\<bar> \<le> 1 / 2"
proof -
  have "of_int \<lfloor>y\<rfloor> \<le> y" "y < of_int \<lfloor>y\<rfloor> + 1" by linarith+
  then show ?thesis
    by (auto simp: round_ties_even_def Let_def)
qed

lemma round64_near:
  assumes "0 < x"
  shows "\<bar>round64 x - x\<bar> \<le> x / 2 ^ 53"
proof -
  define u :: real where "u = 2 powi (binade x - 52)"
  have u: "0 < u" by (simp add: u_def)
  from assms have r: "round64 x = of_int (round_ties_even (x / u)) * u"
    by (simp add: round64_def u_def Let_def)
  have "\<bar>of_int (round_ties_even (x / u)) - x / u\<bar> \<le> 1 / 2"
    by (rule round_ties_even_near)
  then have "\<bar>of_int (round_ties_even (x / u)) - x / u\<bar> * u \<le> 1 / 2 * u"
    using u by (simp add: mult_right_mono)
  moreover have "\<bar>of_int (round_ties_even (x / u)) - x / u\<bar> * u
                   = \<bar>of_int (round_ties_even (x / u)) * u - x\<bar>"
  proof -
    have "\<bar>of_int (round_ties_even (x / u)) - x / u\<bar> * u
            = \<bar>(of_int (round_ties_even (x / u)) - x / u) * u\<bar>"
      using u by (simp add: abs_mult)
    also have "(of_int (round_ties_even (x / u)) - x / u) * u
                 = of_int (round_ties_even (x / u)) * u - x"
      using u by (simp add: field_simps)
    finally show ?thesis .
  qed
  ultimately have "\<bar>round64 x - x\<bar> \<le> u / 2"
    unfolding r by simp
  moreover have "u = 2 powi binade x / 2 ^ 52"
    by (simp add: u_def power_int_diff)
  moreover from binade_bounds [OF assms] have "2 powi binade x \<le> x" by simp
  ultimately have "\<bar>round64 x - x\<bar> \<le> x / 2 ^ 52 / 2"
    by (simp add: field_simps)
  then show ?thesis by simp
qed


lemma round64_nonneg: "0 \<le> x \<Longrightarrow> 0 \<le> round64 x"
proof -
  assume "0 \<le> x"
  show ?thesis
  proof (cases "x = 0")
    case True
    then show ?thesis by (simp add: round64_def)
  next
    case False
    with \<open>0 \<le> x\<close> have "0 < x" by simp
    from round64_near [OF this] have "x - round64 x \<le> x / 2 ^ 53" by linarith
    then have "x * (1 - 1 / 2 ^ 53) \<le> round64 x" by (simp add: algebra_simps)
    moreover from \<open>0 < x\<close> have "0 \<le> x * (1 - 1 / 2 ^ 53)" by simp
    ultimately show ?thesis by linarith
  qed
qed

lemma round64_near0: "0 \<le> x \<Longrightarrow> \<bar>round64 x - x\<bar> \<le> x / 2 ^ 53"
  using round64_near [of x] by (cases "x = 0") (simp_all add: round64_def)

lemma js_rate_near:
  assumes "0 \<le> a" "0 < b"
  shows "\<bar>js_mul (js_div a b) 100 - a / b * 100\<bar> \<le> a / b * 100 * 3 / 2 ^ 53"
proof -
  define q where "q = a / b"
  define q' where "q' = round64 q"
  define r where "r = round64 (q' * 100)"
  define d where "d = q / 2 ^ 53"
  define d' where "d' = q' / 2 ^ 53"
  from assms have q: "0 \<le> q" by (simp add: q_def)
  from round64_near0 [OF q] have 1: "\<bar>q' - q\<bar> \<le> d" by (simp add: q'_def d_def)
  from round64_nonneg [OF q] have "0 \<le> q'" by (simp add: q'_def)
  then have "0 \<le> q' * 100" by simp
  from round64_near0 [OF this] have 2: "\<bar>r - q' * 100\<bar> \<le> 100 * d'"
    by (simp add: r_def d'_def)
  from q have "d \<le> q" by (simp add: d_def field_simps)
  with 1 have "q' \<le> 2 * q" by linarith
  then have 3: "d' \<le> 2 * d" by (simp add: d_def d'_def field_simps)
  from 1 2 3 have "\<bar>r - q * 100\<bar> \<le> 300 * d" by linarith
  then show ?thesis
    by (simp add: js_mul_def js_div_def r_def q'_def q_def d_def)
qed

lemmas double_eval =
  js_mul_def js_div_def round64_def binade_def clog2_def ilog2.simps round_ties_even_def
  Let_def power_int_minus

text \<open>
  Sample roundings: \<open>2\<^sup>5\<^sup>3 + 1\<close> and \<open>2\<^sup>5\<^sup>3 + 3\<close> lie halfway between two doubles and go
  to the even one, a double is left as it is, and \<open>-0.1\<close> goes to the double that the
  language prints as \<open>-0.1\<close>. The quotients of the sample stores, as the host computes
  them: \<open>(4 / 10) * 100\<close> is \<open>40\<close>, \<open>(11 / 20) * 100\<close> is the double printed as
  \<open>55.00000000000001\<close>, and \<open>(1 / 3) * 100\<close> the double printed as \<open>33.33333333333333\<close>.
\<close>

lemma round64_samples:
  "round64 9007199254740993 = 9007199254740992"
  "round64 9007199254740995 = 9007199254740996"
  "round64 (1 / 2) = 1 / 2"
  "round64 100 = 100"
  "round64 (- (1 / 10)) = - (3602879701896397 / 36028797018963968)"
  by (simp_all add: double_eval)

lemma js_div_4_10: "js_div 4 10 = 3602879701896397 / 9007199254740992"
  by (simp add: double_eval)

lemma js_rate_4_10: "js_mul (js_div 4 10) 100 = 40"
  by (simp add: double_eval)

lemma js_rate_11_20: "js_mul (js_div 11 20) 100 = 7740561859543041 / 140737488355328"
  by (simp add: double_eval)

lemma js_rate_1_3: "js_mul (js_div 1 3) 100 = 2345624805922133 / 70368744177664"
  by (simp add: double_eval)

lemma js_rate_1_2: "js_mul (js_div 1 2) 100 = 50"
  by (simp add: double_eval)

lemma js_rate_whole: "js_mul (js_div 1 1) 100 = 100" "js_mul (js_div 2 2) 100 = 100"
  by (simp_all add: double_eval)

section \<open>Tour-level statistics and recent activity\<close>

lemma truthy_set: "v \<noteq> Some 0 \<Longrightarrow> truthy v = (v \<noteq> None)"
  by (cases v) (auto simp: truthy_def)

lemma length_filter_map_snd:
  "length (filter P (map snd (filter Q xs))) = length (filter (\<lambda>p. Q p \<and> P (snd p)) xs)"
  by (induction xs) auto

lemma twenty_records:
  "tourAnalytics twenty_db
     = map (\<lambda>n. (string_of_nat n, sample_record ''R'' 1 (if n < 11 then Some 90000000 else None) []))
         [0, 1, 2, 3, 4, 5, 6, 7, 8, 9, 10, 11, 12, 13, 14, 15, 16, 17, 18, 19]"
proof -
  have "[0..<20] = [0, 1, 2, 3, 4, 5, 6, 7, 8, 9, 10, 11, 12, 13, 14, 15, 16, 17, 18, 19]"
    by (simp add: upt_rec)
  then show ?thesis by (simp add: twenty_db_def)
qed

text \<open>
  Claim C3. In a store whose completion timestamps are clock readings other than \<open>0\<close>
  (the handlers test \<^verbatim>\<open>a.completedAt\<close> for truthiness, and \<open>0\<close>, the epoch itself, is
  falsy), \<open>getTourAnalytics\<close> returns as \<open>totalStarted\<close> the number of Progress Records of
  the tour, as \<open>totalCompleted\<close> the number of those with a completion timestamp set, and
  as \<open>completionRate\<close> the value of \<^verbatim>\<open>(totalCompleted / totalStarted) * 100\<close> in the
  arithmetic of the language, where the quotient and the product are each rounded to a
  double, or 0 when the tour has no record. That value is the exact quotient times 100
  up to the fraction \<open>3 / 2\<^sup>5\<^sup>3\<close> of it. The instances are the spec's example (ten
  records, four completed, rate 40), a tour with no record (rate 0), and a tour with
  twenty records of which eleven are completed, whose rate is the double next above 55.
\<close>

theorem tour_completion_rate:
  assumes "\<forall>(i, d) \<in> set (tourAnalytics s). completedAt d \<noteq> Some 0"
  shows "totalStarted (getTourAnalytics s tid)
           = length (filter (\<lambda>(i, d). tourId d = tid) (tourAnalytics s))
         \<and> totalCompleted (getTourAnalytics s tid)
           = length (filter (\<lambda>(i, d). tourId d = tid \<and> completedAt d \<noteq> None) (tourAnalytics s))
         \<and> completionRate (getTourAnalytics s tid)
           = (if totalStarted (getTourAnalytics s tid) = 0 then 0
              else js_mul (js_div (real (totalCompleted (getTourAnalytics s tid)))
                                  (real (totalStarted (getTourAnalytics s tid)))) 100)
         \<and> (if totalStarted (getTourAnalytics s tid) = 0
            then completionRate (getTourAnalytics s tid) = 0
            else \<bar>completionRate (getTourAnalytics s tid)
                   - real (totalCompleted (getTourAnalytics s tid))
                     / real (totalStarted (getTourAnalytics s tid)) * 100\<bar>
                 \<le> real (totalCompleted (getTourAnalytics s tid))
                     / real (totalStarted (getTourAnalytics s tid)) * 100 * 3 / 2 ^ 53)"
proof -
  let ?r = "getTourAnalytics s tid"
  have "filter (\<lambda>p. (case p of (i, d) \<Rightarrow> tourId d = tid) \<and> truthy (completedAt (snd p))) (tourAnalytics s)
          = filter (\<lambda>(i, d). tourId d = tid \<and> completedAt d \<noteq> None) (tourAnalytics s)"
    using assms by (intro filter_cong) (auto simp: truthy_set)
  then have counts: "totalStarted ?r = length (filter (\<lambda>(i, d). tourId d = tid) (tourAnalytics s))"
    "totalCompleted ?r
       = length (filter (\<lambda>(i, d). tourId d = tid \<and> completedAt d \<noteq> None) (tourAnalytics s))"
    by (simp_all add: getTourAnalytics_def query_by_tour_def Let_def length_filter_map_snd)
  have "completionRate ?r = rate (totalCompleted ?r) (totalStarted ?r)"
    by (simp add: getTourAnalytics_def Let_def)
  then have r: "completionRate ?r
            = (if totalStarted ?r = 0 then 0
               else js_mul (js_div (real (totalCompleted ?r)) (real (totalStarted ?r))) 100)"
    by (simp add: rate_def)
  have near: "\<bar>completionRate ?r - real (totalCompleted ?r) / real (totalStarted ?r) * 100\<bar>
                \<le> real (totalCompleted ?r) / real (totalStarted ?r) * 100 * 3 / 2 ^ 53"
    if "totalStarted ?r \<noteq> 0"
  proof -
    from that have "0 \<le> real (totalCompleted ?r)" "0 < real (totalStarted ?r)"
      by simp_all
    from js_rate_near [OF this] r that show ?thesis
      by simp
  qed
  from r have zero: "completionRate ?r = 0" if "totalStarted ?r = 0"
    using that by simp
  from counts r near zero show ?thesis
    by simp
qed

theorem tour_completion_rate_witness:
  "list_all (\<lambda>(i, d). completedAt d \<noteq> Some 0) (tourAnalytics sample_db)
   \<and> totalStarted (getTourAnalytics sample_db ''T'') = 10
   \<and> totalCompleted (getTourAnalytics sample_db ''T'') = 4
   \<and> completionRate (getTourAnalytics sample_db ''T'') = 40
   \<and> totalStarted (getTourAnalytics sample_db ''none'') = 0
   \<and> completionRate (getTourAnalytics sample_db ''none'') = 0
   \<and> list_all (\<lambda>(i, d). completedAt d \<noteq> Some 0) (tourAnalytics twenty_db)
   \<and> totalStarted (getTourAnalytics twenty_db ''R'') = 20
   \<and> totalCompleted (getTourAnalytics twenty_db ''R'') = 11
   \<and> completionRate (getTourAnalytics twenty_db ''R'') = 7740561859543041 / 140737488355328
   \<and> completionRate (getTourAnalytics twenty_db ''R'') \<noteq> 55"
proof -
  have h: "\<forall>(i, d) \<in> set (tourAnalytics sample_db). completedAt d \<noteq> Some 0"
    by (simp add: sample_db_def sample_record_def)
  have a: "length (filter (\<lambda>(i, d). tourId d = ''T'') (tourAnalytics sample_db)) = 10"
    by (simp add: sample_db_def sample_record_def)
  have b: "length (filter (\<lambda>(i, d). tourId d = ''T'' \<and> completedAt d \<noteq> None) (tourAnalytics sample_db)) = 4"
    by (simp add: sample_db_def sample_record_def)
  have c: "length (filter (\<lambda>(i, d). tourId d = ''none'') (tourAnalytics sample_db)) = 0"
    by (simp add: sample_db_def sample_record_def)
  have h': "\<forall>(i, d) \<in> set (tourAnalytics twenty_db). completedAt d \<noteq> Some 0"
    unfolding twenty_records by (simp add: sample_record_def)
  have a': "length (filter (\<lambda>(i, d). tourId d = ''R'') (tourAnalytics twenty_db)) = 20"
    unfolding twenty_records by (simp add: sample_record_def)
  have b': "length (filter (\<lambda>(i, d). tourId d = ''R'' \<and> completedAt d \<noteq> None) (tourAnalytics twenty_db)) = 11"
    unfolding twenty_records by (simp add: sample_record_def)
  from tour_completion_rate [OF h, of "''T''"] a b
  have "totalStarted (getTourAnalytics sample_db ''T'') = 10
   \<and> totalCompleted (getTourAnalytics sample_db ''T'') = 4
   \<and> completionRate (getTourAnalytics sample_db ''T'') = 40"
    by (simp add: js_rate_4_10)
  moreover from tour_completion_rate [OF h, of "''none''"] c
  have "totalStarted (getTourAnalytics sample_db ''none'') = 0
   \<and> completionRate (getTourAnalytics sample_db ''none'') = 0"
    by simp
  moreover from tour_completion_rate [OF h', of "''R''"] a' b'
  have "totalStarted (getTourAnalytics twenty_db ''R'') = 20
   \<and> totalCompleted (getTourAnalytics twenty_db ''R'') = 11
   \<and> completionRate (getTourAnalytics twenty_db ''R'') = 7740561859543041 / 140737488355328"
    by (simp add: js_rate_11_20)
  moreover have "list_all (\<lambda>(i, d). completedAt d \<noteq> Some 0) (tourAnalytics sample_db)"
    by (simp add: sample_db_def sample_record_def)
  moreover have "list_all (\<lambda>(i, d). completedAt d \<noteq> Some 0) (tourAnalytics twenty_db)"
    unfolding twenty_records by (simp add: sample_record_def)
  ultimately show ?thesis by simp
qed








section \<open>Step-level statistics\<close>

lemma first_seen_snoc:
  "first_seen (xs @ [x]) = (if x \<in> set xs then first_seen xs else first_seen xs @ [x])"
  by (simp add: first_seen_def)

lemma first_seen_Nil: "first_seen [] = []"
  by (simp add: first_seen_def)

lemma set_first_seen: "set (first_seen xs) = set xs"
  by (simp add: first_seen_def)

lemma distinct_first_seen: "distinct (first_seen xs)"
  by (simp add: first_seen_def)

lemma foldl_concat: "foldl f a (concat xss) = foldl (foldl f) a xss"
  by (induction xss arbitrary: a) auto

lemma map_of_keyed: "map_of (map (\<lambda>k. (k, f k)) ks) k = (if k \<in> set ks then Some (f k) else None)"
  by (induction ks) auto

lemma bump_keyed:
  "map (\<lambda>(k, v). if k = a then (k, g v) else (k, v)) (map (\<lambda>k. (k, f k)) ks)
     = map (\<lambda>k. (k, if k = a then g (f k) else f k)) ks"
  by (induction ks) auto

lemma tallyStep_fold:
  "foldl tallyStep [] es = map (\<lambda>k. (k, tally_of es k)) (tallied_keys es)"
proof (induction es rule: rev_induct)
  case Nil
  then show ?case by (simp add: tallied_keys_def first_seen_Nil)
next
  case (snoc e es)
  let ?a = "stepId e"
  let ?obj = "map (\<lambda>k. (k, tally_of es k)) (tallied_keys es)"
  have keys_np: "k \<notin> set Object_prototype_members" if "k \<in> set (tallied_keys es)" for k
    using that by (auto simp: tallied_keys_def set_first_seen)
  show ?case
  proof (cases "?a \<in> set Object_prototype_members")
    case True
    have k: "tallied_keys (es @ [e]) = tallied_keys es"
      using True by (simp add: tallied_keys_def)
    have "tally_of (es @ [e]) k = tally_of es k" if "k \<in> set (tallied_keys es)" for k
      using keys_np [OF that] True by (auto simp: tally_of_def)
    then have "map (\<lambda>k. (k, tally_of (es @ [e]) k)) (tallied_keys es) = ?obj"
      by (intro map_cong) auto
    with snoc True k show ?thesis
      by (simp add: tallyStep_def)
  next
    case False
    let ?inc1 = "\<lambda>(st, co). (st + 1, co :: nat)"
    let ?inc2 = "\<lambda>(st, co). (st :: nat, co + 1)"
    let ?created = "if ?a \<in> set (tallied_keys es) then ?obj else ?obj @ [(?a, (0, 0))]"
    let ?f0 = "\<lambda>k. if k \<in> set (tallied_keys es) then tally_of es k else (0, 0)"
    have not_seen: "tally_of es ?a = (0, 0)" if "?a \<notin> set (tallied_keys es)"
    proof -
      from that False have "?a \<notin> stepId ` set es"
        by (auto simp: tallied_keys_def set_first_seen)
      then have ne: "\<forall>x \<in> set es. stepId x \<noteq> ?a"
        by (auto simp: image_iff)
      then have "filter (\<lambda>x. stepId x = ?a) es = []"
        by (simp add: filter_empty_conv)
      moreover from ne have "filter (\<lambda>x. stepId x = ?a \<and> truthy (step_completedAt x)) es = []"
        by (simp add: filter_empty_conv)
      ultimately show ?thesis by (simp add: tally_of_def)
    qed
    have k: "tallied_keys (es @ [e])
               = (if ?a \<in> set (tallied_keys es) then tallied_keys es else tallied_keys es @ [?a])"
      using False by (auto simp: tallied_keys_def first_seen_snoc set_first_seen)
    have c: "?created = map (\<lambda>k. (k, tally_of es k)) (tallied_keys (es @ [e]))"
      unfolding k using not_seen by simp
    have t: "tallyStep ?obj e
               = (let started = map (\<lambda>(k, v). if k = ?a then (k, ?inc1 v) else (k, v)) ?created
                  in if truthy (step_completedAt e)
                     then map (\<lambda>(k, v). if k = ?a then (k, ?inc2 v) else (k, v)) started
                     else started)"
      using False by (simp add: tallyStep_def map_of_keyed Let_def split_def)
    have "tallyStep ?obj e = map (\<lambda>k. (k, tally_of (es @ [e]) k)) (tallied_keys (es @ [e]))"
      unfolding t c Let_def bump_keyed
      by (auto simp: tally_of_def)
    with snoc show ?thesis by simp
  qed
qed


lemma insort_key_keyed:
  "insort_key (\<lambda>(k, v). g k) (a, f a) (map (\<lambda>k. (k, f k)) ks)
     = map (\<lambda>k. (k, f k)) (insort_key g a ks)"
  by (induction ks) auto

lemma sort_key_keyed:
  "sort_key (\<lambda>(k, v). g k) (map (\<lambda>k. (k, f k)) ks) = map (\<lambda>k. (k, f k)) (sort_key g ks)"
  by (induction ks) (simp_all add: sort_key_simps insort_key_keyed)

lemma filter_keyed:
  "filter (\<lambda>(k, v). P k) (map (\<lambda>k. (k, f k)) ks) = map (\<lambda>k. (k, f k)) (filter P ks)"
  by (induction ks) auto

lemma object_entries_keyed:
  "object_entries (map (\<lambda>k. (k, f k)) ks) = map (\<lambda>k. (k, f k)) (own_key_order ks)"
  by (simp add: object_entries_def own_key_order_def sort_key_keyed filter_keyed)

lemma set_own_key_order: "set (own_key_order ks) = set ks"
  by (auto simp: own_key_order_def)

lemma distinct_own_key_order: "distinct ks \<Longrightarrow> distinct (own_key_order ks)"
  by (auto simp: own_key_order_def)

lemma own_key_order_plain: "\<forall>k \<in> set ks. \<not> is_array_index k \<Longrightarrow> own_key_order ks = ks"
proof -
  assume a: "\<forall>k \<in> set ks. \<not> is_array_index k"
  then have "filter is_array_index ks = []"
    by (simp add: filter_empty_conv)
  moreover from a have "filter (\<lambda>k. \<not> is_array_index k) ks = ks"
    by (simp add: filter_id_conv)
  ultimately show ?thesis by (simp add: own_key_order_def)
qed

lemma stepCompletionRates_eq:
  "stepCompletionRates (getTourAnalytics s tid)
     = map (\<lambda>k. (k, rate (snd (tally_of (tour_entries s tid) k)) (fst (tally_of (tour_entries s tid) k))))
         (own_key_order (tallied_keys (tour_entries s tid)))"
proof -
  have "foldl (\<lambda>obj record. foldl tallyStep obj (stepProgress record)) [] (query_by_tour s tid)
          = foldl tallyStep [] (tour_entries s tid)"
    by (simp add: tour_entries_def foldl_concat foldl_map)
  then show ?thesis
    by (simp add: getTourAnalytics_def Let_def tallyStep_fold object_entries_keyed split_def comp_def)
qed

lemma tally_of_stamped:
  assumes "\<forall>e \<in> set es. step_completedAt e \<noteq> Some 0"
  shows "tally_of es k = (step_started es k, step_completed es k)"
proof -
  have "filter (\<lambda>e. stepId e = k \<and> truthy (step_completedAt e)) es
          = filter (\<lambda>e. stepId e = k \<and> step_completedAt e \<noteq> None) es"
    using assms by (intro filter_cong) (auto simp: truthy_set)
  then show ?thesis
    by (simp add: tally_of_def step_started_def step_completed_def)
qed


lemma sample_entries:
  "tour_entries sample_db ''T''
     = [\<lparr>stepId = ''2'', step_startedAt = 86400001, step_completedAt = Some 86400001\<rparr>,
        \<lparr>stepId = ''1'', step_startedAt = 86400002, step_completedAt = Some 86400002\<rparr>,
        \<lparr>stepId = ''1'', step_startedAt = 86400003, step_completedAt = None\<rparr>]"
  by (simp add: tour_entries_def query_by_tour_def sample_db_def sample_record_def)


lemma steps_entries:
  "tour_entries steps_db ''T''
     = [\<lparr>stepId = ''b'', step_startedAt = 86400001, step_completedAt = Some 86400001\<rparr>,
        \<lparr>stepId = ''10'', step_startedAt = 86400002, step_completedAt = Some 86400002\<rparr>,
        \<lparr>stepId = ''constructor'', step_startedAt = 86400003, step_completedAt = Some 86400003\<rparr>,
        \<lparr>stepId = ''9'', step_startedAt = 86400004, step_completedAt = Some 86400004\<rparr>,
        \<lparr>stepId = ''c'', step_startedAt = 86400005, step_completedAt = Some 86400005\<rparr>,
        \<lparr>stepId = ''b'', step_startedAt = 86400006, step_completedAt = None\<rparr>,
        \<lparr>stepId = ''9'', step_startedAt = 86400007, step_completedAt = Some 86400007\<rparr>,
        \<lparr>stepId = ''c'', step_startedAt = 86400008, step_completedAt = None\<rparr>,
        \<lparr>stepId = ''c'', step_startedAt = 86400009, step_completedAt = None\<rparr>]"
  by (simp add: tour_entries_def query_by_tour_def steps_db_def sample_record_def)


text \<open>
  Claim C5, as the code has it. \<open>stepCompletion\<close> is a plain object, so the pairs come
  out in the order in which an object enumerates its own keys, and a step identifier
  that names a member of \<^verbatim>\<open>Object.prototype\<close> never becomes a key. In a store whose
  completion timestamps are clock readings other than \<open>0\<close>, \<open>getTourAnalytics\<close> emits
  exactly one pair for every distinct step identifier seen in the entries of the tour's
  records that names no such member; the identifiers that are array indices come first,
  in ascending numeric order, and the others follow in first-seen order. The rate of a
  step is the value of \<^verbatim>\<open>(completed / started) * 100\<close> in the arithmetic of the language,
  quotient and product each rounded to a double, with the zero guard of the tour-level
  rate, where \<open>started\<close> counts the entries of the step and \<open>completed\<close> those with a
  completion timestamp. Where no step identifier is an array index or names such a
  member, the order is the first-seen order. In the first instance the steps \<open>b\<close>,
  \<open>10\<close>, \<open>constructor\<close>, \<open>9\<close> and \<open>c\<close> are seen in this order; the pairs are those of
  \<open>9\<close>, \<open>10\<close>, \<open>b\<close> and \<open>c\<close>; \<open>b\<close>, with one completed and one uncompleted entry, has
  rate 50, and \<open>c\<close>, with one completed entry of three, has as rate the double next
  below \<open>100 / 3\<close>. In the second the steps are \<open>s1\<close> and \<open>s2\<close>, and the pairs come in
  this order.
\<close>

theorem step_rates_in_key_order:
  assumes "\<forall>e \<in> set (tour_entries s tid). step_completedAt e \<noteq> Some 0"
  shows "stepCompletionRates (getTourAnalytics s tid)
           = map (\<lambda>k. (k, if step_started (tour_entries s tid) k = 0 then 0
                          else js_mul (js_div (real (step_completed (tour_entries s tid) k))
                                              (real (step_started (tour_entries s tid) k))) 100))
               (own_key_order (first_seen
                  (filter (\<lambda>k. k \<notin> set Object_prototype_members)
                     (map stepId (tour_entries s tid)))))
         \<and> distinct (map fst (stepCompletionRates (getTourAnalytics s tid)))
         \<and> set (map fst (stepCompletionRates (getTourAnalytics s tid)))
             = stepId ` set (tour_entries s tid) - set Object_prototype_members
         \<and> ((\<forall>k \<in> stepId ` set (tour_entries s tid).
                \<not> is_array_index k \<and> k \<notin> set Object_prototype_members)
              \<longrightarrow> map fst (stepCompletionRates (getTourAnalytics s tid))
                    = first_seen (map stepId (tour_entries s tid)))"
proof -
  let ?es = "tour_entries s tid"
  let ?ks = "first_seen (filter (\<lambda>k. k \<notin> set Object_prototype_members) (map stepId ?es))"
  have eq: "stepCompletionRates (getTourAnalytics s tid)
              = map (\<lambda>k. (k, if step_started ?es k = 0 then 0
                             else js_mul (js_div (real (step_completed ?es k))
                                                 (real (step_started ?es k))) 100))
                  (own_key_order ?ks)"
    by (simp add: stepCompletionRates_eq tally_of_stamped [OF assms] tallied_keys_def rate_def)
  have keys: "map fst (stepCompletionRates (getTourAnalytics s tid)) = own_key_order ?ks"
    unfolding eq by (simp add: comp_def)
  have d: "distinct (map fst (stepCompletionRates (getTourAnalytics s tid)))"
    unfolding keys by (rule distinct_own_key_order) (rule distinct_first_seen)
  have m: "set (map fst (stepCompletionRates (getTourAnalytics s tid)))
             = stepId ` set ?es - set Object_prototype_members"
    unfolding keys by (auto simp: set_own_key_order set_first_seen)
  have p: "map fst (stepCompletionRates (getTourAnalytics s tid)) = first_seen (map stepId ?es)"
    if a: "\<forall>k \<in> stepId ` set ?es. \<not> is_array_index k \<and> k \<notin> set Object_prototype_members"
  proof -
    from a have "filter (\<lambda>k. k \<notin> set Object_prototype_members) (map stepId ?es) = map stepId ?es"
      by (simp add: filter_id_conv)
    moreover from a have "\<forall>k \<in> set (first_seen (map stepId ?es)). \<not> is_array_index k"
      by (simp add: set_first_seen)
    ultimately show ?thesis
      unfolding keys by (simp add: own_key_order_plain)
  qed
  from eq d m p show ?thesis by blast
qed

theorem step_rates_in_key_order_witness:
  "list_all (\<lambda>e. step_completedAt e \<noteq> Some 0) (tour_entries steps_db ''T'')
   \<and> map stepId (tour_entries steps_db ''T'')
     = [''b'', ''10'', ''constructor'', ''9'', ''c'', ''b'', ''9'', ''c'', ''c'']
   \<and> stepCompletionRates (getTourAnalytics steps_db ''T'')
     = [(''9'', 100), (''10'', 100), (''b'', 50), (''c'', 2345624805922133 / 70368744177664)]
   \<and> list_all (\<lambda>e. step_completedAt e \<noteq> Some 0) (tour_entries abandoned_db ''T'')
   \<and> list_all (\<lambda>k. \<not> is_array_index k \<and> k \<notin> set Object_prototype_members)
         (map stepId (tour_entries abandoned_db ''T''))
   \<and> map fst (stepCompletionRates (getTourAnalytics abandoned_db ''T'')) = [''s1'', ''s2'']"
proof -
  have e2: "tour_entries abandoned_db ''T''
              = [\<lparr>stepId = ''s1'', step_startedAt = 1100, step_completedAt = Some 1100\<rparr>,
                 \<lparr>stepId = ''s2'', step_startedAt = 1200, step_completedAt = Some 1200\<rparr>]"
    by (simp add: tour_entries_def query_by_tour_def abandoned_db_def)
  have h2: "\<forall>e \<in> set (tour_entries abandoned_db ''T''). step_completedAt e \<noteq> Some 0"
    unfolding e2 by simp
  have l2: "list_all (\<lambda>e. step_completedAt e \<noteq> Some 0) (tour_entries abandoned_db ''T'')"
    unfolding e2 by simp
  have p2: "list_all (\<lambda>k. \<not> is_array_index k \<and> k \<notin> set Object_prototype_members)
              (map stepId (tour_entries abandoned_db ''T''))"
    unfolding e2 by (simp add: is_array_index_def is_digit_def Object_prototype_members_def)
  then have q2: "\<forall>k \<in> stepId ` set (tour_entries abandoned_db ''T'').
                   \<not> is_array_index k \<and> k \<notin> set Object_prototype_members"
    by (simp add: list_all_iff)
  from step_rates_in_key_order [OF h2] q2
  have "map fst (stepCompletionRates (getTourAnalytics abandoned_db ''T''))
          = first_seen (map stepId (tour_entries abandoned_db ''T''))"
    by blast
  then have r2: "map fst (stepCompletionRates (getTourAnalytics abandoned_db ''T'')) = [''s1'', ''s2'']"
    unfolding e2 by (simp add: first_seen_def)
  have h: "\<forall>e \<in> set (tour_entries steps_db ''T''). step_completedAt e \<noteq> Some 0"
    unfolding steps_entries by simp
  have l: "list_all (\<lambda>e. step_completedAt e \<noteq> Some 0) (tour_entries steps_db ''T'')"
    unfolding steps_entries by simp
  have i: "map stepId (tour_entries steps_db ''T'')
             = [''b'', ''10'', ''constructor'', ''9'', ''c'', ''b'', ''9'', ''c'', ''c'']"
    unfolding steps_entries by simp
  have k: "first_seen (filter (\<lambda>k. k \<notin> set Object_prototype_members)
              [''b'', ''10'', ''constructor'', ''9'', ''c'', ''b'', ''9'', ''c'', ''c''])
             = [''b'', ''10'', ''9'', ''c'']"
    by (simp add: first_seen_def Object_prototype_members_def)
  have o: "own_key_order [''b'', ''10'', ''9'', ''c''] = [''9'', ''10'', ''b'', ''c'']"
    by (simp add: own_key_order_def is_array_index_def is_digit_def decimal_value_def)
  have c: "step_started (tour_entries steps_db ''T'') ''9'' = 2"
          "step_completed (tour_entries steps_db ''T'') ''9'' = 2"
          "step_started (tour_entries steps_db ''T'') ''10'' = 1"
          "step_completed (tour_entries steps_db ''T'') ''10'' = 1"
          "step_started (tour_entries steps_db ''T'') ''b'' = 2"
          "step_completed (tour_entries steps_db ''T'') ''b'' = 1"
          "step_started (tour_entries steps_db ''T'') ''c'' = 3"
          "step_completed (tour_entries steps_db ''T'') ''c'' = 1"
    unfolding steps_entries by (simp_all add: step_started_def step_completed_def)
  from step_rates_in_key_order [OF h]
  have "stepCompletionRates (getTourAnalytics steps_db ''T'')
          = map (\<lambda>k. (k, if step_started (tour_entries steps_db ''T'') k = 0 then 0
                          else js_mul (js_div (real (step_completed (tour_entries steps_db ''T'') k))
                                              (real (step_started (tour_entries steps_db ''T'') k))) 100))
               (own_key_order (first_seen
                  (filter (\<lambda>k. k \<notin> set Object_prototype_members)
                     (map stepId (tour_entries steps_db ''T'')))))"
    by (rule conjunct1)
  then have "stepCompletionRates (getTourAnalytics steps_db ''T'')
               = [(''9'', 100), (''10'', 100), (''b'', 50), (''c'', 2345624805922133 / 70368744177664)]"
    unfolding i k o by (simp add: c js_rate_whole js_rate_1_2 js_rate_1_3)
  with l i l2 p2 r2 show ?thesis by simp
qed

text \<open>
  The claim as stated fails on the order: in the sample store the first record completes
  step \<open>2\<close> before step \<open>1\<close>, so \<open>2\<close> is seen first, and the pair of \<open>1\<close> is emitted
  first.
\<close>

theorem first_seen_order_counterexample:
  "first_seen (map stepId (tour_entries sample_db ''T'')) = [''2'', ''1'']
   \<and> stepCompletionRates (getTourAnalytics sample_db ''T'') = [(''1'', 50), (''2'', 100)]"
proof -
  have k: "tallied_keys (tour_entries sample_db ''T'') = [''2'', ''1'']"
    unfolding sample_entries
    by (simp add: tallied_keys_def first_seen_def Object_prototype_members_def)
  have o: "own_key_order [''2'', ''1''] = [''1'', ''2'']"
    by (simp add: own_key_order_def is_array_index_def is_digit_def decimal_value_def)
  have t1: "tally_of (tour_entries sample_db ''T'') ''1'' = (2, 1)"
    unfolding sample_entries by (simp add: tally_of_def truthy_def)
  have t2: "tally_of (tour_entries sample_db ''T'') ''2'' = (1, 1)"
    unfolding sample_entries by (simp add: tally_of_def truthy_def)
  have f: "first_seen (map stepId (tour_entries sample_db ''T'')) = [''2'', ''1'']"
    unfolding sample_entries by (simp add: first_seen_def)
  have "stepCompletionRates (getTourAnalytics sample_db ''T'') = [(''1'', 50), (''2'', 100)]"
    unfolding stepCompletionRates_eq k o by (simp add: t1 t2 rate_def js_rate_whole js_rate_1_2)
  with f show ?thesis by simp
qed

section \<open>Activity by day\<close>

text \<open>
  The day key names the day faithfully: a template literal writes an integer in
  decimal digits, with a minus sign before a negative one, so the three numbers can be
  read back from the key.
\<close>

lemma digit_at: "n < 10 \<Longrightarrow> of_char (''0123456789'' ! n) = 48 + n \<and> is_digit (''0123456789'' ! n)"
proof -
  assume n: "n < 10"
  have "list_all (\<lambda>k. of_char (''0123456789'' ! k) = 48 + k \<and> is_digit (''0123456789'' ! k)) [0..<10]"
    by (simp add: upt_rec is_digit_def)
  then have "\<forall>k \<in> {0..<10}. of_char (''0123456789'' ! k) = 48 + k \<and> is_digit (''0123456789'' ! k)"
    by (simp only: list_all_iff set_upt)
  with n show ?thesis by simp
qed

lemma string_of_nat_digits: "string_of_nat n \<noteq> [] \<and> list_all is_digit (string_of_nat n)"
proof (induction n rule: string_of_nat.induct)
  case (1 n)
  show ?case
  proof (cases "n < 10")
    case True
    then show ?thesis
      using digit_at [of n] by (simp add: string_of_nat.simps [of n])
  next
    case False
    with 1 digit_at [of "n mod 10"] show ?thesis
      by (simp add: string_of_nat.simps [of n])
  qed
qed

lemma decimal_value_snoc:
  "decimal_value (xs @ [c]) = 10 * decimal_value xs + (of_char c - 48)"
  by (simp add: decimal_value_def)

lemma decimal_value_string_of_nat: "decimal_value (string_of_nat n) = n"
proof (induction n rule: string_of_nat.induct)
  case (1 n)
  show ?case
  proof (cases "n < 10")
    case True
    then have "string_of_nat n = [] @ [''0123456789'' ! n]"
      by (simp add: string_of_nat.simps [of n])
    moreover have "decimal_value [] = 0"
      by (simp add: decimal_value_def)
    moreover from True digit_at [of n] have "of_char (''0123456789'' ! n) - 48 = n"
      by simp
    ultimately show ?thesis
      by (simp only: decimal_value_snoc)
  next
    case False
    then have "string_of_nat n = string_of_nat (n div 10) @ [''0123456789'' ! (n mod 10)]"
      by (simp add: string_of_nat.simps [of n])
    moreover from False 1 have "decimal_value (string_of_nat (n div 10)) = n div 10"
      by simp
    moreover have "of_char (''0123456789'' ! (n mod 10)) - 48 = n mod 10"
    proof -
      have "n mod 10 < 10" by simp
      from digit_at [OF this] have "of_char (''0123456789'' ! (n mod 10)) = 48 + n mod 10"
        by (rule conjunct1)
      then show ?thesis by (simp only: diff_add_inverse)
    qed
    ultimately have "decimal_value (string_of_nat n) = 10 * (n div 10) + n mod 10"
      by (simp only: decimal_value_snoc)
    also have "\<dots> = n"
      by (rule mult_div_mod_eq)
    finally show ?thesis .
  qed
qed

lemma string_of_nat_inject: "string_of_nat m = string_of_nat n \<Longrightarrow> m = n"
  by (metis decimal_value_string_of_nat)

lemma digits_then_rest:
  assumes "list_all is_digit xs" "list_all is_digit ys" "\<not> is_digit c"
    and "xs @ c # r = ys @ c # r'"
  shows "xs = ys \<and> r = r'"
proof -
  have "takeWhile is_digit (xs @ c # r) = xs" "takeWhile is_digit (ys @ c # r') = ys"
    using assms(1-3) by (simp_all add: takeWhile_append2 list_all_iff)
  with assms(4) have "xs = ys" by simp
  with assms(4) show ?thesis by simp
qed

lemma minus_no_digit: "\<not> is_digit CHR ''-''"
  by (simp add: is_digit_def)

lemma string_of_int_then_rest:
  assumes "string_of_int i @ CHR ''-'' # r = string_of_int j @ CHR ''-'' # r'"
  shows "i = j \<and> r = r'"
proof -
  have first: "hd (string_of_nat n @ zs) \<noteq> CHR ''-''" for n zs
  proof -
    from string_of_nat_digits [of n] obtain d ds where
      "string_of_nat n = d # ds" "is_digit d"
      by (cases "string_of_nat n") auto
    with minus_no_digit show ?thesis by auto
  qed
  consider "i < 0" "j < 0" | "0 \<le> i" "0 \<le> j" | "i < 0" "0 \<le> j" | "0 \<le> i" "j < 0"
    by linarith
  then show ?thesis
  proof cases
    case 1
    with assms have "string_of_nat (nat (- i)) @ CHR ''-'' # r
                       = string_of_nat (nat (- j)) @ CHR ''-'' # r'"
      by (simp add: string_of_int_def)
    from digits_then_rest [OF _ _ minus_no_digit this] string_of_nat_digits
    have "string_of_nat (nat (- i)) = string_of_nat (nat (- j)) \<and> r = r'" by simp
    with 1 string_of_nat_inject [of "nat (- i)" "nat (- j)"] show ?thesis by simp
  next
    case 2
    with assms have "string_of_nat (nat i) @ CHR ''-'' # r
                       = string_of_nat (nat j) @ CHR ''-'' # r'"
      by (simp add: string_of_int_def)
    from digits_then_rest [OF _ _ minus_no_digit this] string_of_nat_digits
    have "string_of_nat (nat i) = string_of_nat (nat j) \<and> r = r'" by simp
    with 2 string_of_nat_inject [of "nat i" "nat j"] show ?thesis by simp
  next
    case 3
    with assms have "CHR ''-'' # string_of_nat (nat (- i)) @ CHR ''-'' # r
                       = string_of_nat (nat j) @ CHR ''-'' # r'"
      by (simp add: string_of_int_def)
    from arg_cong [OF this, of hd] first [of "nat j" "CHR ''-'' # r'"] show ?thesis by simp
  next
    case 4
    with assms have "string_of_nat (nat i) @ CHR ''-'' # r
                       = CHR ''-'' # string_of_nat (nat (- j)) @ CHR ''-'' # r'"
      by (simp add: string_of_int_def)
    from arg_cong [OF this, of hd] first [of "nat i" "CHR ''-'' # r"] show ?thesis by simp
  qed
qed

lemma string_of_int_inject: "string_of_int i = string_of_int j \<Longrightarrow> i = j"
  using string_of_int_then_rest [of i "[]" j "[]"] by simp

lemma dayKey_inject:
  "(dayKey cal t = dayKey cal t')
     = (getFullYear cal t = getFullYear cal t' \<and> getMonth cal t = getMonth cal t'
        \<and> getDate cal t = getDate cal t')"
proof
  assume "dayKey cal t = dayKey cal t'"
  then have "string_of_int (getFullYear cal t)
               @ CHR ''-'' # (string_of_int (getMonth cal t + 1) @ CHR ''-'' # string_of_int (getDate cal t))
             = string_of_int (getFullYear cal t')
               @ CHR ''-'' # (string_of_int (getMonth cal t' + 1) @ CHR ''-'' # string_of_int (getDate cal t'))"
    by (simp add: dayKey_def)
  from string_of_int_then_rest [OF this]
  have y: "getFullYear cal t = getFullYear cal t'"
    and "string_of_int (getMonth cal t + 1) @ CHR ''-'' # string_of_int (getDate cal t)
         = string_of_int (getMonth cal t' + 1) @ CHR ''-'' # string_of_int (getDate cal t')"
    by simp_all
  from string_of_int_then_rest [OF this(2)]
  have "getMonth cal t = getMonth cal t'" "string_of_int (getDate cal t) = string_of_int (getDate cal t')"
    by simp_all
  with y string_of_int_inject
  show "getFullYear cal t = getFullYear cal t' \<and> getMonth cal t = getMonth cal t'
        \<and> getDate cal t = getDate cal t'"
    by blast
next
  assume "getFullYear cal t = getFullYear cal t' \<and> getMonth cal t = getMonth cal t'
        \<and> getDate cal t = getDate cal t'"
  then show "dayKey cal t = dayKey cal t'"
    by (simp add: dayKey_def)
qed


lemma map_set_keyed:
  "map_set (map (\<lambda>k. (k, f k)) ks) a v
     = (if a \<in> set ks then map (\<lambda>k. (k, if k = a then v else f k)) ks
        else map (\<lambda>k. (k, f k)) ks @ [(a, v)])"
proof -
  have "map (\<lambda>(k', v'). if k' = a then (k', v) else (k', v')) (map (\<lambda>k. (k, f k)) ks)
          = map (\<lambda>k. (k, if k = a then v else f k)) ks"
    by (induction ks) auto
  then show ?thesis
    by (simp add: map_set_def map_of_keyed)
qed

lemma byDayOf_eq:
  "byDayOf cal rs
     = map (\<lambda>k. (k, length (filter (\<lambda>r. dayKey cal (startedAt (snd r)) = k) rs)))
         (first_seen (map (\<lambda>r. dayKey cal (startedAt (snd r))) rs))"
proof (induction rs rule: rev_induct)
  case Nil
  then show ?case by (simp add: byDayOf_def first_seen_Nil)
next
  case (snoc r rs)
  let ?key = "\<lambda>r. dayKey cal (startedAt (snd r))"
  let ?ks = "first_seen (map ?key rs)"
  let ?n = "\<lambda>rs k. length (filter (\<lambda>r. ?key r = k) rs)"
  have step: "byDayOf cal (rs @ [r]) = countDay cal (map (\<lambda>k. (k, ?n rs k)) ?ks) r"
    using snoc by (simp add: byDayOf_def)
  show ?case
  proof (cases "?key r \<in> set ?ks")
    case True
    then have f: "first_seen (map ?key (rs @ [r])) = ?ks"
      by (simp add: first_seen_snoc set_first_seen)
    have "countDay cal (map (\<lambda>k. (k, ?n rs k)) ?ks) r
            = map (\<lambda>k. (k, if k = ?key r then ?n rs (?key r) + 1 else ?n rs k)) ?ks"
      using True by (simp add: countDay_def Let_def map_set_keyed map_of_keyed)
    also have "\<dots> = map (\<lambda>k. (k, ?n (rs @ [r]) k)) ?ks"
      by (intro map_cong) auto
    finally show ?thesis
      unfolding step f .
  next
    case False
    then have f: "first_seen (map ?key (rs @ [r])) = ?ks @ [?key r]"
      by (simp add: first_seen_snoc set_first_seen)
    from False have z: "filter (\<lambda>x. ?key x = ?key r) rs = []"
      by (auto simp: set_first_seen filter_empty_conv image_iff)
    have "countDay cal (map (\<lambda>k. (k, ?n rs k)) ?ks) r
            = map (\<lambda>k. (k, ?n rs k)) ?ks @ [(?key r, 1)]"
      using False by (simp add: countDay_def Let_def map_set_keyed map_of_keyed)
    also have "\<dots> = map (\<lambda>k. (k, ?n (rs @ [r]) k)) (?ks @ [?key r])"
      using False z by (auto simp: set_first_seen)
    finally show ?thesis
      unfolding step f .
  qed
qed


lemma first_seen_strict:
  fixes xs :: "'a :: linorder list"
  shows "sorted_wrt (\<ge>) xs \<Longrightarrow> sorted_wrt (>) (first_seen xs)"
proof (induction xs rule: rev_induct)
  case Nil
  then show ?case by (simp add: first_seen_Nil)
next
  case (snoc x xs)
  from snoc.prems have s: "sorted_wrt (\<ge>) xs" and b: "\<forall>y \<in> set xs. y \<ge> x"
    by (simp_all add: sorted_wrt_append)
  show ?case
  proof (cases "x \<in> set xs")
    case True
    with snoc.IH [OF s] show ?thesis by (simp add: first_seen_snoc)
  next
    case False
    have "y > x" if "y \<in> set xs" for y
    proof -
      from that b have "x \<le> y" by simp
      moreover from that False have "x \<noteq> y" by auto
      ultimately show ?thesis by simp
    qed
    then have "\<forall>y \<in> set xs. y > x" by simp
    with False snoc.IH [OF s] show ?thesis
      by (simp add: first_seen_snoc sorted_wrt_append set_first_seen)
  qed
qed

lemma first_seen_common:
  assumes "\<forall>x \<in> set xs. \<forall>y \<in> set xs. (f x = f y) = (g x = g y)"
  shows "\<exists>ys. set ys \<subseteq> set xs \<and> first_seen (map f xs) = map f ys
              \<and> first_seen (map g xs) = map g ys"
  using assms
proof (induction xs rule: rev_induct)
  case Nil
  then show ?case by (simp add: first_seen_Nil)
next
  case (snoc x xs)
  from snoc.prems have "\<forall>x \<in> set xs. \<forall>y \<in> set xs. (f x = f y) = (g x = g y)"
    by simp
  from snoc.IH [OF this] obtain ys where
    ys: "set ys \<subseteq> set xs" "first_seen (map f xs) = map f ys" "first_seen (map g xs) = map g ys"
    by blast
  from snoc.prems have e: "(f x \<in> f ` set xs) = (g x \<in> g ` set xs)"
    by (auto simp: image_iff)
  show ?case
  proof (cases "f x \<in> f ` set xs")
    case True
    with e ys have "set ys \<subseteq> set (xs @ [x]) \<and> first_seen (map f (xs @ [x])) = map f ys
              \<and> first_seen (map g (xs @ [x])) = map g ys"
      by (auto simp: first_seen_snoc)
    then show ?thesis by blast
  next
    case False
    with e ys have "set (ys @ [x]) \<subseteq> set (xs @ [x])
              \<and> first_seen (map f (xs @ [x])) = map f (ys @ [x])
              \<and> first_seen (map g (xs @ [x])) = map g (ys @ [x])"
      by (auto simp: first_seen_snoc)
    then show ?thesis by blast
  qed
qed

lemma completionsByDay_eq:
  "completionsByDay (getOwnerAnalyticsSummary s cal owner)
     = map (\<lambda>k. \<lparr>date = k,
                  completions = length (filter (\<lambda>r. dayKey cal (startedAt (snd r)) = k)
                                          (take 50 (rev (tourAnalytics s))))\<rparr>)
         (rev (take 7 (first_seen (map (\<lambda>r. dayKey cal (startedAt (snd r)))
                                     (take 50 (rev (tourAnalytics s)))))))"
  by (simp add: getOwnerAnalyticsSummary_def recent_def byDayOf_eq take_map rev_map)

lemma dayKey_ymd: "(dayKey cal t = dayKey cal t') = (ymd cal t = ymd cal t')"
  by (simp add: dayKey_inject ymd_def)

text \<open>
  In a chronological window the buckets follow the days: of two buckets the one listed
  first holds the records of the earlier day, which started earlier, and the buckets
  left out hold records of earlier days than all that are listed.
\<close>

lemma chronological_buckets:
  assumes c: "chronological cal rs"
    and ks_def: "ks = rev (take 7 (first_seen (map (\<lambda>r. dayKey cal (startedAt (snd r))) rs)))"
  shows "\<forall>i j. i < j \<and> j < length ks \<longrightarrow>
           (\<forall>r \<in> set rs. \<forall>r' \<in> set rs.
              dayKey cal (startedAt (snd r)) = ks ! i \<and> dayKey cal (startedAt (snd r')) = ks ! j
                \<longrightarrow> startedAt (snd r) < startedAt (snd r')
                    \<and> ymd cal (startedAt (snd r)) < ymd cal (startedAt (snd r')))"
    and "\<forall>r \<in> set rs. \<forall>r' \<in> set rs.
           dayKey cal (startedAt (snd r)) \<notin> set ks \<and> dayKey cal (startedAt (snd r')) \<in> set ks
             \<longrightarrow> startedAt (snd r) < startedAt (snd r')
                 \<and> ymd cal (startedAt (snd r)) < ymd cal (startedAt (snd r'))"
proof -
  let ?f = "\<lambda>r. dayKey cal (startedAt (snd r))"
  let ?g = "\<lambda>r. ymd cal (startedAt (snd r))"
  from c have sorted: "sorted_wrt (\<ge>) (map (\<lambda>r. startedAt (snd r)) rs)"
    and mono: "\<And>r r'. r \<in> set rs \<Longrightarrow> r' \<in> set rs \<Longrightarrow> startedAt (snd r) \<le> startedAt (snd r')
                 \<Longrightarrow> ?g r \<le> ?g r'"
    by (auto simp: chronological_def list_all_iff)
  have faithful: "(?f r = ?f r') = (?g r = ?g r')" for r r'
    by (rule dayKey_ymd)
  have before: "startedAt (snd r) < startedAt (snd r')"
    if "r \<in> set rs" "r' \<in> set rs" "?g r < ?g r'" for r r'
  proof (rule ccontr)
    assume "\<not> startedAt (snd r) < startedAt (snd r')"
    then have "startedAt (snd r') \<le> startedAt (snd r)" by simp
    from mono [OF that(2) that(1) this] that(3) show False
      by (meson leD)
  qed
  from sorted have "sorted_wrt (\<lambda>r r'. startedAt (snd r) \<ge> startedAt (snd r')) rs"
    by (simp add: sorted_wrt_map)
  then have "sorted_wrt (\<lambda>r r'. ?g r \<ge> ?g r') rs"
    by (rule sorted_wrt_mono_rel [rotated]) (use mono in blast)
  then have gs: "sorted_wrt (\<ge>) (map ?g rs)"
    by (simp add: sorted_wrt_map)
  from faithful have "\<forall>x \<in> set rs. \<forall>y \<in> set rs. (?f x = ?f y) = (?g x = ?g y)"
    by blast
  from first_seen_common [OF this] obtain ys where
    ys: "set ys \<subseteq> set rs" "first_seen (map ?f rs) = map ?f ys" "first_seen (map ?g rs) = map ?g ys"
    by blast
  from first_seen_strict [OF gs] ys(3) have dec: "sorted_wrt (>) (map ?g ys)"
    by simp
  let ?zs = "rev (take 7 ys)"
  have ks: "ks = map ?f ?zs"
    by (simp add: ks_def ys(2) take_map rev_map)
  have zs_sub: "set ?zs \<subseteq> set rs"
    using ys(1) set_take_subset [of 7 ys] by auto
  from dec have "sorted_wrt (\<lambda>r r'. ?g r > ?g r') (take 7 ys @ drop 7 ys)"
    by (simp add: sorted_wrt_map)
  then have inc0: "sorted_wrt (\<lambda>r r'. ?g r > ?g r') (take 7 ys)"
    and cut: "\<And>z y. z \<in> set (take 7 ys) \<Longrightarrow> y \<in> set (drop 7 ys) \<Longrightarrow> ?g y < ?g z"
    unfolding sorted_wrt_append by auto
  from inc0 have inc: "sorted_wrt (\<lambda>r r'. ?g r < ?g r') ?zs"
    by (simp add: sorted_wrt_rev)
  show "\<forall>i j. i < j \<and> j < length ks \<longrightarrow>
           (\<forall>r \<in> set rs. \<forall>r' \<in> set rs.
              ?f r = ks ! i \<and> ?f r' = ks ! j
                \<longrightarrow> startedAt (snd r) < startedAt (snd r') \<and> ?g r < ?g r')"
  proof (intro allI impI ballI)
    fix i j r r'
    assume ij: "i < j \<and> j < length ks" and r: "r \<in> set rs" "r' \<in> set rs"
      and k: "?f r = ks ! i \<and> ?f r' = ks ! j"
    from ij ks have l: "i < length ?zs" "j < length ?zs" "i < j" by auto
    from l zs_sub have m: "?zs ! i \<in> set rs" "?zs ! j \<in> set rs"
      using nth_mem by blast+
    from k ks l have "?f r = ?f (?zs ! i)" "?f r' = ?f (?zs ! j)"
      by (simp_all del: rev_take)
    with faithful [of r "?zs ! i"] faithful [of r' "?zs ! j"]
    have e: "?g r = ?g (?zs ! i)" "?g r' = ?g (?zs ! j)" by simp_all
    from sorted_wrt_nth_less [OF inc l(3) l(2)] have "?g (?zs ! i) < ?g (?zs ! j)" .
    with e have lt: "?g r < ?g r'" by simp
    with before [OF r] show "startedAt (snd r) < startedAt (snd r') \<and> ?g r < ?g r'" by simp
  qed
  show "\<forall>r \<in> set rs. \<forall>r' \<in> set rs.
           ?f r \<notin> set ks \<and> ?f r' \<in> set ks
             \<longrightarrow> startedAt (snd r) < startedAt (snd r') \<and> ?g r < ?g r'"
  proof (intro ballI impI)
    fix r r'
    assume r: "r \<in> set rs" "r' \<in> set rs"
      and k: "?f r \<notin> set ks \<and> ?f r' \<in> set ks"
    from r(1) have "?f r \<in> set (first_seen (map ?f rs))"
      by (simp add: set_first_seen)
    with ys(2) obtain y where y: "y \<in> set ys" "?f r = ?f y" by auto
    from k ks y(2) have "y \<notin> set (take 7 ys)" by auto
    with y(1) have yd: "y \<in> set (drop 7 ys)"
      using set_append [of "take 7 ys" "drop 7 ys"] by auto
    from k ks obtain z where z: "z \<in> set (take 7 ys)" "?f r' = ?f z" by auto
    from faithful [of r y] faithful [of r' z] y(2) z(2)
    have "?g r = ?g y" "?g r' = ?g z" by simp_all
    with cut [OF z(1) yd] have lt: "?g r < ?g r'" by simp
    with before [OF r] show "startedAt (snd r) < startedAt (snd r') \<and> ?g r < ?g r'" by simp
  qed
qed

lemma sample_window:
  "take 50 (rev (tourAnalytics sample_db)) =
     [(''b0'', sample_record ''gone'' 9 None []),
      (''a9'', sample_record ''T'' 9 None []),
      (''a8'', sample_record ''T'' 8 None []),
      (''a7'', sample_record ''T'' 7 None []),
      (''a6'', sample_record ''T'' 6 None []),
      (''a5'', sample_record ''T'' 5 None []),
      (''a4'', sample_record ''T'' 4 None []),
      (''a3'', sample_record ''T'' 3 (Some 270000000) []),
      (''a2'', sample_record ''T'' 2 (Some 180000000) []),
      (''a1'', sample_record ''T'' 1 (Some 90000000)
                   [\<lparr>stepId = ''1'', step_startedAt = 86400003, step_completedAt = None\<rparr>]),
      (''a0'', sample_record ''T'' 1 (Some 90000000)
                   [\<lparr>stepId = ''2'', step_startedAt = 86400001, step_completedAt = Some 86400001\<rparr>,
                    \<lparr>stepId = ''1'', step_startedAt = 86400002, step_completedAt = Some 86400002\<rparr>])]"
  by (simp add: sample_db_def)

lemma sample_dayKey:
  "dayKey sample_calendar (startedAt (snd (i, sample_record tid d c sp)))
     = ''1970-1-'' @ string_of_int (1 + d)"
  by (simp add: sample_record_def dayKey_def sample_calendar_def
        string_of_int_def string_of_nat.simps)

lemma sample_ymd:
  "ymd sample_calendar (startedAt (snd (i, sample_record tid d c sp))) = (1970, 0, 1 + d)"
  by (simp add: sample_record_def ymd_def sample_calendar_def)

lemma sample_record_start: "startedAt (snd (i, sample_record tid d c sp)) = d * 86400000"
  by (simp add: sample_record_def)

lemma sample_days:
  "map (\<lambda>r. dayKey sample_calendar (startedAt (snd r))) (take 50 (rev (tourAnalytics sample_db)))
     = [''1970-1-10'', ''1970-1-10'', ''1970-1-9'', ''1970-1-8'', ''1970-1-7'', ''1970-1-6'',
        ''1970-1-5'', ''1970-1-4'', ''1970-1-3'', ''1970-1-2'', ''1970-1-2'']"
  unfolding sample_window
  by (simp add: sample_dayKey string_of_int_def string_of_nat.simps del: snd_conv)

lemma sample_chronological:
  "chronological sample_calendar (take 50 (rev (tourAnalytics sample_db)))"
  unfolding chronological_def sample_window
  by (simp add: sample_record_def ymd_def sample_calendar_def)

text \<open>
  Claim C7. The day buckets of \<open>getOwnerAnalyticsSummary\<close> are computed from the fifty
  Progress Records created last in the whole store, whoever the owner is: the result
  is the same for every owner. The records are grouped by their day key, and two
  timestamps have the same day key exactly when the local calendar gives them the same
  year, month and day of the month. The dates listed are the first seven distinct day
  keys met when the window is read from the newest record on, in reverse, so at most
  seven; each comes with the number of records of the window that started on that day.
  Where the window is chronological (start times follow the creation order, and a later
  time never lies on an earlier day), these are the seven most recent days of the
  window in chronological order, the oldest first: every record of a bucket started
  before, and on an earlier day than, every record of a bucket listed later, and every
  record of the window whose day is not listed started before, and on an earlier day
  than, every record whose day is listed.
\<close>

theorem completions_by_day:
  "map date (completionsByDay (getOwnerAnalyticsSummary s cal owner))
     = rev (take 7 (first_seen (map (\<lambda>r. dayKey cal (startedAt (snd r)))
                                  (take 50 (rev (tourAnalytics s))))))
   \<and> map completions (completionsByDay (getOwnerAnalyticsSummary s cal owner))
     = map (\<lambda>k. length (filter (\<lambda>r. dayKey cal (startedAt (snd r)) = k)
                          (take 50 (rev (tourAnalytics s)))))
         (rev (take 7 (first_seen (map (\<lambda>r. dayKey cal (startedAt (snd r)))
                                     (take 50 (rev (tourAnalytics s)))))))
   \<and> length (completionsByDay (getOwnerAnalyticsSummary s cal owner)) \<le> 7
   \<and> completionsByDay (getOwnerAnalyticsSummary s cal owner)
     = completionsByDay (getOwnerAnalyticsSummary s cal owner')
   \<and> ((dayKey cal t = dayKey cal t')
        = (getFullYear cal t = getFullYear cal t' \<and> getMonth cal t = getMonth cal t'
           \<and> getDate cal t = getDate cal t'))
   \<and> (chronological cal (take 50 (rev (tourAnalytics s))) \<longrightarrow>
        (\<forall>i j. i < j \<and> j < length (completionsByDay (getOwnerAnalyticsSummary s cal owner)) \<longrightarrow>
           (\<forall>r \<in> set (take 50 (rev (tourAnalytics s))).
            \<forall>r' \<in> set (take 50 (rev (tourAnalytics s))).
              dayKey cal (startedAt (snd r))
                = date (completionsByDay (getOwnerAnalyticsSummary s cal owner) ! i)
              \<and> dayKey cal (startedAt (snd r'))
                = date (completionsByDay (getOwnerAnalyticsSummary s cal owner) ! j)
                \<longrightarrow> startedAt (snd r) < startedAt (snd r')
                    \<and> (getFullYear cal (startedAt (snd r)), getMonth cal (startedAt (snd r)),
                        getDate cal (startedAt (snd r)))
                      < (getFullYear cal (startedAt (snd r')), getMonth cal (startedAt (snd r')),
                         getDate cal (startedAt (snd r')))))
        \<and> (\<forall>r \<in> set (take 50 (rev (tourAnalytics s))).
            \<forall>r' \<in> set (take 50 (rev (tourAnalytics s))).
              dayKey cal (startedAt (snd r))
                \<notin> date ` set (completionsByDay (getOwnerAnalyticsSummary s cal owner))
              \<and> dayKey cal (startedAt (snd r'))
                \<in> date ` set (completionsByDay (getOwnerAnalyticsSummary s cal owner))
                \<longrightarrow> startedAt (snd r) < startedAt (snd r')
                    \<and> (getFullYear cal (startedAt (snd r)), getMonth cal (startedAt (snd r)),
                        getDate cal (startedAt (snd r)))
                      < (getFullYear cal (startedAt (snd r')), getMonth cal (startedAt (snd r')),
                         getDate cal (startedAt (snd r')))))"
proof -
  let ?W = "take 50 (rev (tourAnalytics s))"
  let ?f = "\<lambda>r. dayKey cal (startedAt (snd r))"
  let ?g = "\<lambda>r. (getFullYear cal (startedAt (snd r)), getMonth cal (startedAt (snd r)),
                  getDate cal (startedAt (snd r)))"
  let ?ks = "rev (take 7 (first_seen (map ?f ?W)))"
  let ?cbd = "completionsByDay (getOwnerAnalyticsSummary s cal owner)"
  have 1: "map date ?cbd = ?ks"
    unfolding completionsByDay_eq by (simp add: comp_def del: rev_take)
  have 2: "map completions ?cbd = map (\<lambda>k. length (filter (\<lambda>r. ?f r = k) ?W)) ?ks"
    unfolding completionsByDay_eq by (simp add: comp_def del: rev_take)
  have 3: "length ?cbd \<le> 7"
    unfolding completionsByDay_eq by simp
  have 4: "?cbd = completionsByDay (getOwnerAnalyticsSummary s cal owner')"
    unfolding completionsByDay_eq ..
  have n: "date (?cbd ! i) = ?ks ! i" if "i < length ?cbd" for i
    using that nth_map [of i ?cbd date] unfolding 1 by simp
  have l: "length ?cbd = length ?ks"
    using arg_cong [OF 1, of length] by simp
  have d: "date ` set ?cbd = set ?ks"
    using arg_cong [OF 1, of set] by simp
  have 5: "\<forall>i j. i < j \<and> j < length ?cbd \<longrightarrow>
           (\<forall>r \<in> set ?W. \<forall>r' \<in> set ?W.
              ?f r = date (?cbd ! i) \<and> ?f r' = date (?cbd ! j)
                \<longrightarrow> startedAt (snd r) < startedAt (snd r') \<and> ?g r < ?g r')"
    if c: "chronological cal ?W"
  proof (intro allI impI)
    fix i j
    assume ij: "i < j \<and> j < length ?cbd"
    then have "date (?cbd ! i) = ?ks ! i" "date (?cbd ! j) = ?ks ! j"
      using n [of i] n [of j] by simp_all
    with chronological_buckets(1) [OF c refl] ij l
    show "\<forall>r \<in> set ?W. \<forall>r' \<in> set ?W.
              ?f r = date (?cbd ! i) \<and> ?f r' = date (?cbd ! j)
                \<longrightarrow> startedAt (snd r) < startedAt (snd r') \<and> ?g r < ?g r'"
      by (simp add: ymd_def)
  qed
  have 6: "\<forall>r \<in> set ?W. \<forall>r' \<in> set ?W.
              ?f r \<notin> date ` set ?cbd \<and> ?f r' \<in> date ` set ?cbd
                \<longrightarrow> startedAt (snd r) < startedAt (snd r') \<and> ?g r < ?g r'"
    if c: "chronological cal ?W"
    using chronological_buckets(2) [OF c refl] unfolding d ymd_def .
  from 1 2 3 4 dayKey_inject [of cal t t'] 5 6 show ?thesis by blast
qed

theorem completions_by_day_witness:
  "chronological sample_calendar (take 50 (rev (tourAnalytics sample_db)))
   \<and> map date (completionsByDay (getOwnerAnalyticsSummary sample_db sample_calendar ''o''))
     = [''1970-1-4'', ''1970-1-5'', ''1970-1-6'', ''1970-1-7'', ''1970-1-8'', ''1970-1-9'', ''1970-1-10'']
   \<and> map completions (completionsByDay (getOwnerAnalyticsSummary sample_db sample_calendar ''o''))
     = [1, 1, 1, 1, 1, 1, 2]
   \<and> startedAt (snd (''a3'', sample_record ''T'' 3 (Some 270000000) []))
     < startedAt (snd (''a4'', sample_record ''T'' 4 None []))
   \<and> startedAt (snd (''a2'', sample_record ''T'' 2 (Some 180000000) []))
     < startedAt (snd (''a3'', sample_record ''T'' 3 (Some 270000000) []))"
proof -
  let ?cbd = "completionsByDay (getOwnerAnalyticsSummary sample_db sample_calendar ''o'')"
  let ?W = "take 50 (rev (tourAnalytics sample_db))"
  let ?f = "\<lambda>r. dayKey sample_calendar (startedAt (snd r))"
  let ?a2 = "(''a2'', sample_record ''T'' 2 (Some 180000000) [])"
  let ?a3 = "(''a3'', sample_record ''T'' 3 (Some 270000000) [])"
  let ?a4 = "(''a4'', sample_record ''T'' 4 None [])"
  note inst = completions_by_day [of sample_db sample_calendar "''o''" "''o''" 0 0]
  have ks: "rev (take 7 (first_seen (map ?f ?W)))
              = [''1970-1-4'', ''1970-1-5'', ''1970-1-6'', ''1970-1-7'', ''1970-1-8'', ''1970-1-9'',
                 ''1970-1-10'']"
    unfolding sample_days by (simp add: first_seen_def)
  from inst have d: "map date ?cbd
     = [''1970-1-4'', ''1970-1-5'', ''1970-1-6'', ''1970-1-7'', ''1970-1-8'', ''1970-1-9'', ''1970-1-10'']"
    unfolding ks by (rule conjunct1)
  from inst have "map completions ?cbd
     = map (\<lambda>k. length (filter (\<lambda>r. ?f r = k) ?W))
         [''1970-1-4'', ''1970-1-5'', ''1970-1-6'', ''1970-1-7'', ''1970-1-8'', ''1970-1-9'', ''1970-1-10'']"
    unfolding ks by (elim conjE)
  then have c: "map completions ?cbd = [1, 1, 1, 1, 1, 1, 2]"
    unfolding sample_window
    by (simp add: sample_dayKey string_of_int_def string_of_nat.simps del: snd_conv)
  from inst sample_chronological have chrono:
    "\<forall>i j. i < j \<and> j < length ?cbd \<longrightarrow>
           (\<forall>r \<in> set ?W. \<forall>r' \<in> set ?W.
              ?f r = date (?cbd ! i) \<and> ?f r' = date (?cbd ! j)
                \<longrightarrow> startedAt (snd r) < startedAt (snd r')
                    \<and> (getFullYear sample_calendar (startedAt (snd r)),
                        getMonth sample_calendar (startedAt (snd r)),
                        getDate sample_calendar (startedAt (snd r)))
                      < (getFullYear sample_calendar (startedAt (snd r')),
                         getMonth sample_calendar (startedAt (snd r')),
                         getDate sample_calendar (startedAt (snd r'))))"
    and rest:
    "\<forall>r \<in> set ?W. \<forall>r' \<in> set ?W.
              ?f r \<notin> date ` set ?cbd \<and> ?f r' \<in> date ` set ?cbd
                \<longrightarrow> startedAt (snd r) < startedAt (snd r')
                    \<and> (getFullYear sample_calendar (startedAt (snd r)),
                        getMonth sample_calendar (startedAt (snd r)),
                        getDate sample_calendar (startedAt (snd r)))
                      < (getFullYear sample_calendar (startedAt (snd r')),
                         getMonth sample_calendar (startedAt (snd r')),
                         getDate sample_calendar (startedAt (snd r')))"
    by blast+
  have mem: "?a2 \<in> set ?W" "?a3 \<in> set ?W" "?a4 \<in> set ?W"
    unfolding sample_window by simp_all
  from arg_cong [OF d, of length] have len: "length ?cbd = 7" by simp
  from arg_cong [OF d, of "\<lambda>xs. xs ! 0"] len have d0: "date (?cbd ! 0) = ''1970-1-4''"
    by simp
  from arg_cong [OF d, of "\<lambda>xs. xs ! 1"] len have d1: "date (?cbd ! 1) = ''1970-1-5''"
    by simp
  have k3: "?f ?a3 = ''1970-1-4''"
    and k4: "?f ?a4 = ''1970-1-5''"
    and k2: "?f ?a2 = ''1970-1-3''"
    by (simp_all add: sample_dayKey string_of_int_def string_of_nat.simps del: snd_conv)
  from chrono have "(0::nat) < 1 \<and> 1 < length ?cbd \<longrightarrow>
           (\<forall>r \<in> set ?W. \<forall>r' \<in> set ?W.
              ?f r = date (?cbd ! 0) \<and> ?f r' = date (?cbd ! 1)
                \<longrightarrow> startedAt (snd r) < startedAt (snd r')
                    \<and> (getFullYear sample_calendar (startedAt (snd r)),
                        getMonth sample_calendar (startedAt (snd r)),
                        getDate sample_calendar (startedAt (snd r)))
                      < (getFullYear sample_calendar (startedAt (snd r')),
                         getMonth sample_calendar (startedAt (snd r')),
                         getDate sample_calendar (startedAt (snd r'))))"
    by blast
  with len have "\<forall>r \<in> set ?W. \<forall>r' \<in> set ?W.
              ?f r = date (?cbd ! 0) \<and> ?f r' = date (?cbd ! 1)
                \<longrightarrow> startedAt (snd r) < startedAt (snd r')
                    \<and> (getFullYear sample_calendar (startedAt (snd r)),
                        getMonth sample_calendar (startedAt (snd r)),
                        getDate sample_calendar (startedAt (snd r)))
                      < (getFullYear sample_calendar (startedAt (snd r')),
                         getMonth sample_calendar (startedAt (snd r')),
                         getDate sample_calendar (startedAt (snd r')))"
    by simp
  from this [THEN bspec, OF mem(2), THEN bspec, OF mem(3)] d0 d1 k3 k4
  have o34: "startedAt (snd ?a3) < startedAt (snd ?a4)"
    by simp
  from arg_cong [OF d, of set] have ds: "date ` set ?cbd
      = {''1970-1-4'', ''1970-1-5'', ''1970-1-6'', ''1970-1-7'', ''1970-1-8'', ''1970-1-9'', ''1970-1-10''}"
    by simp
  from rest [THEN bspec, OF mem(1), THEN bspec, OF mem(2)]
  have o23: "startedAt (snd ?a2) < startedAt (snd ?a3)"
    unfolding ds k2 k3 by simp
  from sample_chronological d c o34 o23 show ?thesis by simp
qed

section \<open>Re-sequencing after a deletion\<close>

lemma findIndex_nth:
  assumes "distinct xs" and "k < length xs"
  shows "findIndex (\<lambda>x. x = xs ! k) xs = int k"
proof -
  let ?i = "findIndex (\<lambda>x. x = xs ! k) xs"
  from assms(2) have "\<not> (\<forall>x \<in> set xs. x \<noteq> xs ! k)" by auto
  then have ge: "0 \<le> ?i"
    using findIndex_none [of "\<lambda>x. x = xs ! k" xs] by auto
  from findIndex_first [OF ge] have "nat ?i < length xs" "xs ! nat ?i = xs ! k"
    by simp_all
  with assms have "nat ?i = k"
    by (simp add: nth_eq_iff_index_eq)
  with ge show ?thesis by simp
qed

lemma findIndex_absent: "a \<notin> set xs \<Longrightarrow> findIndex (\<lambda>x. x = a) xs = -1"
  using findIndex_none [of "\<lambda>x. x = a" xs] findIndex_range [of "\<lambda>x. x = a" xs] by auto

lemma findIndex_eq_nth:
  assumes "findIndex (\<lambda>x. x = a) xs = int k"
  shows "k < length xs \<and> xs ! k = a"
  using findIndex_first [of "\<lambda>x. x = a" xs] assms by simp

lemma db_patch_in:
  assumes "i \<in> fst ` set tbl"
  shows "db_patch tbl i f = Inr (map (\<lambda>(j, d). if j = i then (j, f d) else (j, d)) tbl)"
proof -
  from assms have "map_of tbl i \<noteq> None"
    by (simp add: map_of_eq_None_iff)
  then show ?thesis by (simp add: db_patch_def)
qed

lemma reorderLoop_eq:
  assumes "distinct (map fst rem)" and "fst ` set rem \<subseteq> fst ` set tbl"
  shows "reorderLoop tbl rem i = (map (renumbered (map fst rem) i) tbl, Inr ())"
  using assms
proof (induction tbl rem i rule: reorderLoop.induct)
  case (1 tbl rem i)
  show ?case
  proof (cases "i < length rem")
    case False
    have "renumbered (map fst rem) i p = p" for p
    proof -
      have "\<not> int i \<le> findIndex (\<lambda>x. x = fst p) (map fst rem)"
        using findIndex_range [of "\<lambda>x. x = fst p" "map fst rem"] False by auto
      then show ?thesis by (simp add: renumbered_def Let_def)
    qed
    then have "map (renumbered (map fst rem) i) tbl = tbl"
      by (simp add: map_idI)
    with False show ?thesis
      by (subst reorderLoop.simps) simp
  next
    case True
    let ?a = "fst (rem ! i)"
    let ?f = "\<lambda>d. d\<lparr>step_order := int i + 1\<rparr>"
    let ?tbl' = "map (\<lambda>(j, d). if j = ?a then (j, ?f d) else (j, d)) tbl"
    from True "1.prems"(2) have "?a \<in> fst ` set tbl"
      using nth_mem [of i rem] by blast
    then have p: "db_patch tbl ?a ?f = Inr ?tbl'"
      by (rule db_patch_in)
    from db_patch_ids [OF p] have "set (map fst ?tbl') = set (map fst tbl)"
      by simp
    then have ids: "fst ` set ?tbl' = fst ` set tbl"
      by (simp only: set_map)
    from "1.IH" [OF True p "1.prems"(1)] "1.prems"(2) ids
    have IH: "reorderLoop ?tbl' rem (i + 1) = (map (renumbered (map fst rem) (i + 1)) ?tbl', Inr ())"
      by simp
    have a: "findIndex (\<lambda>x. x = ?a) (map fst rem) = int i"
      using findIndex_nth [OF "1.prems"(1), of i] True by simp
    have "renumbered (map fst rem) (i + 1) (if j = ?a then (j, ?f d) else (j, d))
            = renumbered (map fst rem) i (j, d)" for j d
    proof (cases "j = ?a")
      case True
      with a show ?thesis by (simp add: renumbered_def Let_def)
    next
      case False
      have "findIndex (\<lambda>x. x = j) (map fst rem) \<noteq> int i"
      proof
        assume "findIndex (\<lambda>x. x = j) (map fst rem) = int i"
        from findIndex_eq_nth [OF this] \<open>i < length rem\<close> False show False by simp
      qed
      then have "(int (i + 1) \<le> findIndex (\<lambda>x. x = j) (map fst rem))
                   = (int i \<le> findIndex (\<lambda>x. x = j) (map fst rem))"
        by auto
      with False show ?thesis by (simp add: renumbered_def Let_def)
    qed
    then have "map (renumbered (map fst rem) (i + 1)) ?tbl' = map (renumbered (map fst rem) i) tbl"
      by (simp add: split_def)
    with IH True p show ?thesis
      by (subst reorderLoop.simps) simp
  qed
qed

lemma sort_key_unique:
  assumes "mset xs = mset ys" and "sorted (map f ys)" and "distinct (map f ys)"
  shows "sort_key f xs = ys"
proof (rule map_sorted_distinct_set_unique [of f])
  from assms(1) have s: "set xs = set ys" by (rule mset_eq_setD)
  from assms(3) have "inj_on f (set ys)" by (simp add: distinct_map)
  with s show "inj_on f (set (sort_key f xs) \<union> set ys)" by simp
  show "sorted (map f (sort_key f xs))" by simp
  have "mset (map f (sort_key f xs)) = mset (map f ys)"
    using assms(1) by simp
  from mset_eq_imp_distinct_iff [OF this] assms(3) show "distinct (map f (sort_key f xs))"
    by simp
  show "sorted (map f ys)" by (rule assms(2))
  show "distinct (map f ys)" by (rule assms(3))
  from s show "set (sort_key f xs) = set ys" by simp
qed

lemma db_delete_in:
  "db_get tbl i = Some d \<Longrightarrow> db_delete tbl i = Inr (filter (\<lambda>(j, d). j \<noteq> i) tbl)"
  by (simp add: db_delete_def db_get_def)

lemma distinct_query:
  assumes "distinct (map fst tbl)"
  shows "distinct (map fst (query_by_tourId_order tbl t))"
proof -
  have "mset (map fst (query_by_tourId_order tbl t))
          = mset (map fst (filter (\<lambda>(i, d). step_tourId d = t) tbl))"
    by (simp add: query_by_tourId_order_def)
  from mset_eq_imp_distinct_iff [OF this] assms show ?thesis
    by (simp add: distinct_map_filter)
qed

lemma query_after_delete:
  "query_by_tourId_order (filter (\<lambda>(j, d). j \<noteq> i) tbl) t
     = filter (\<lambda>(j, d). j \<noteq> i) (query_by_tourId_order tbl t)"
proof -
  have "filter (\<lambda>(i, d). step_tourId d = t) (filter (\<lambda>(j, d). j \<noteq> i) tbl)
          = filter (\<lambda>(j, d). j \<noteq> i) (filter (\<lambda>(i, d). step_tourId d = t) tbl)"
    by (simp add: conj_commute)
  then show ?thesis
    by (simp add: query_by_tourId_order_def filter_sort)
qed

lemma length_remove_one:
  "distinct xs \<Longrightarrow> a \<in> set xs \<Longrightarrow> Suc (length (filter (\<lambda>x. x \<noteq> a) xs)) = length xs"
proof (induction xs)
  case Nil
  then show ?case by simp
next
  case (Cons x xs)
  show ?case
  proof (cases "x = a")
    case True
    with Cons.prems have "filter (\<lambda>x. x \<noteq> a) xs = xs"
      by (auto simp: filter_id_conv)
    with True show ?thesis by simp
  next
    case False
    with Cons show ?thesis by simp
  qed
qed

lemma renumbered_keeps:
  "fst (renumbered ids i p) = fst p"
  "step_tourId (snd (renumbered ids i p)) = step_tourId (snd p)"
  by (simp_all add: renumbered_def Let_def)

lemma ordinals_sorted: "sorted (map (\<lambda>k. int k + 1) [0..<n])"
  by (induction n) (auto simp: sorted_append)

lemma ordinals_distinct: "distinct (map (\<lambda>k. int k + 1) [0..<n])"
  by (simp add: distinct_map inj_on_def)

lemma ordinals_from_one: "map (\<lambda>k. int k + 1) [0..<n] = map int [1..<Suc n]"
proof -
  have "map (\<lambda>k. int k + 1) [0..<n] = map int (map Suc [0..<n])"
    by (simp add: comp_def)
  then show ?thesis
    by (simp only: map_Suc_upt One_nat_def)
qed

text \<open>The listing of a tour after the loop has renumbered what the listing before it held.\<close>

lemma query_renumbered:
  fixes t :: Id
  assumes "distinct (map fst tbl)" and rem_def: "rem = query_by_tourId_order tbl t"
  shows "query_by_tourId_order (map (renumbered (map fst rem) 0) tbl) t
           = map (renumbered (map fst rem) 0) rem"
    and "map (\<lambda>p. step_order (snd p)) (map (renumbered (map fst rem) 0) rem)
           = map (\<lambda>k. int k + 1) [0..<length rem]"
proof -
  let ?g = "renumbered (map fst rem) 0"
  let ?f = "\<lambda>(i, d). step_order d"
  let ?X = "filter (\<lambda>(i, d). step_tourId d = t) tbl"
  have d: "distinct (map fst rem)"
    unfolding rem_def using assms(1) by (rule distinct_query)
  have ord: "?f (?g (rem ! k)) = int k + 1" if "k < length rem" for k
  proof -
    from findIndex_nth [OF d, of k] that
    have "findIndex (\<lambda>x. x = fst (rem ! k)) (map fst rem) = int k" by simp
    then show ?thesis
      by (simp add: renumbered_def Let_def split_def)
  qed
  have m: "map ?f (map ?g rem) = map (\<lambda>k. int k + 1) [0..<length rem]"
    by (rule nth_equalityI) (simp_all add: ord)
  then show "map (\<lambda>p. step_order (snd p)) (map ?g rem) = map (\<lambda>k. int k + 1) [0..<length rem]"
    by (simp add: split_def)
  have "filter (\<lambda>(i, d). step_tourId d = t) (map ?g tbl) = map ?g ?X"
    by (simp add: filter_map comp_def split_def renumbered_keeps)
  then have q: "query_by_tourId_order (map ?g tbl) t = sort_key ?f (map ?g ?X)"
    by (simp add: query_by_tourId_order_def)
  have "mset (map ?g ?X) = mset (map ?g rem)"
    by (simp add: rem_def query_by_tourId_order_def)
  from sort_key_unique [OF this, of ?f] m ordinals_sorted [of "length rem"]
    ordinals_distinct [of "length rem"]
  have "sort_key ?f (map ?g ?X) = map ?g rem" by simp
  with q show "query_by_tourId_order (map ?g tbl) t = map ?g rem" by simp
qed

lemma deleteStep_ok:
  assumes "deleteStep s identity i = (s', Inr ())"
      and "distinct (map fst (steps s))"
      and "db_get (steps s) i = Some step"
  shows "steps s' =
           map (renumbered
                  (map fst (query_by_tourId_order (filter (\<lambda>(j, d). j \<noteq> i) (steps s))
                     (step_tourId step))) 0)
             (filter (\<lambda>(j, d). j \<noteq> i) (steps s))"
proof -
  let ?tbl = "filter (\<lambda>(j, d). j \<noteq> i) (steps s)"
  let ?rem = "query_by_tourId_order ?tbl (step_tourId step)"
  from assms(2) have "distinct (map fst ?tbl)"
    by (simp add: distinct_map_filter)
  then have d: "distinct (map fst ?rem)" by (rule distinct_query)
  have "set ?rem \<subseteq> set ?tbl"
    by (auto simp: query_by_tourId_order_def)
  then have "fst ` set ?rem \<subseteq> fst ` set ?tbl" by blast
  from reorderLoop_eq [OF d this, of 0]
  have l: "reorderLoop ?tbl ?rem 0 = (map (renumbered (map fst ?rem) 0) ?tbl, Inr ())" .
  from assms(1,3) show ?thesis
    by (auto simp: deleteStep_def db_delete_in [OF assms(3)] l Let_def
          split: option.splits if_splits)
qed


lemma five_steps_delete:
  "deleteStep five_steps_db (Some ''o'') ''s2'' = (four_steps_db, Inr ())"
  by (simp add: deleteStep_def five_steps_db_def four_steps_db_def db_get_def db_delete_def
        query_by_tourId_order_def reorderLoop.simps db_patch_def Let_def)


text \<open>
  Claim C9. Let \<open>deleteStep\<close> succeed on a step of a tour that has \<open>n\<close> steps, in a store
  whose documents have pairwise different identifiers. Then the tour has \<open>n - 1\<close> steps
  afterwards, the remaining ones, in the order they had before, and listed by ordinal
  they carry the ordinals \<open>1, 2, \<dots>, n - 1\<close>: consecutive from one, with no gap, whichever
  step was removed and whatever the ordinals were before.
\<close>

theorem deleteStep_resequences:
  assumes "deleteStep s identity i = (s', Inr ())"
      and "distinct (map fst (steps s))"
      and "db_get (steps s) i = Some step"
  shows "map (\<lambda>p. step_order (snd p)) (query_by_tourId_order (steps s') (step_tourId step))
           = map int [1..<length (query_by_tourId_order (steps s) (step_tourId step))]
         \<and> map fst (query_by_tourId_order (steps s') (step_tourId step))
           = filter (\<lambda>j. j \<noteq> i) (map fst (query_by_tourId_order (steps s) (step_tourId step)))
         \<and> Suc (length (query_by_tourId_order (steps s') (step_tourId step)))
           = length (query_by_tourId_order (steps s) (step_tourId step))"
proof -
  let ?t = "step_tourId step"
  let ?tbl = "filter (\<lambda>(j, d). j \<noteq> i) (steps s)"
  let ?old = "query_by_tourId_order (steps s) ?t"
  let ?rem = "query_by_tourId_order ?tbl ?t"
  let ?g = "renumbered (map fst ?rem) 0"
  from assms(2) have dt: "distinct (map fst ?tbl)"
    by (simp add: distinct_map_filter)
  have new: "query_by_tourId_order (steps s') ?t = map ?g ?rem"
    unfolding deleteStep_ok [OF assms] by (rule query_renumbered(1) [OF dt refl])
  have "?rem = filter (\<lambda>(j, d). j \<noteq> i) ?old"
    by (rule query_after_delete)
  then have rem: "map fst ?rem = filter (\<lambda>j. j \<noteq> i) (map fst ?old)"
    by (simp add: filter_map comp_def split_def)
  from assms(3) have "(i, step) \<in> set (steps s)"
    by (simp add: db_get_def map_of_SomeD)
  then have "(i, step) \<in> set ?old"
    by (simp add: query_by_tourId_order_def)
  then have "i \<in> set (map fst ?old)" by force
  from length_remove_one [OF distinct_query [OF assms(2)] this] rem
  have len: "Suc (length ?rem) = length ?old"
    by (metis length_map)
  have 1: "map (\<lambda>p. step_order (snd p)) (query_by_tourId_order (steps s') ?t)
             = map int [1..<length ?old]"
    unfolding new query_renumbered(2) [OF dt refl] ordinals_from_one len ..
  have 2: "map fst (query_by_tourId_order (steps s') ?t) = filter (\<lambda>j. j \<noteq> i) (map fst ?old)"
    unfolding new using rem by (simp add: comp_def renumbered_keeps)
  have 3: "Suc (length (query_by_tourId_order (steps s') ?t)) = length ?old"
    unfolding new using len by simp
  from 1 2 3 show ?thesis by simp
qed

theorem deleteStep_resequences_witness:
  "deleteStep five_steps_db (Some ''o'') ''s2'' = (four_steps_db, Inr ())
   \<and> distinct (map fst (steps five_steps_db))
   \<and> db_get (steps five_steps_db) ''s2''
     = Some \<lparr>step_tourId = ''T'', step_stepId = ''b'', step_order = 2\<rparr>
   \<and> map fst (query_by_tourId_order (steps five_steps_db) ''T'') = [''s1'', ''s2'', ''s3'', ''s4'', ''s5'']
   \<and> map (\<lambda>p. step_order (snd p)) (query_by_tourId_order (steps four_steps_db) ''T'') = [1, 2, 3, 4]
   \<and> map fst (query_by_tourId_order (steps four_steps_db) ''T'') = [''s1'', ''s3'', ''s4'', ''s5'']"
proof -
  let ?step = "\<lparr>step_tourId = ''T'', step_stepId = ''b'', step_order = 2\<rparr>"
  have d: "distinct (map fst (steps five_steps_db))"
    by (simp add: five_steps_db_def)
  have g: "db_get (steps five_steps_db) ''s2'' = Some ?step"
    by (simp add: five_steps_db_def db_get_def)
  have o: "map fst (query_by_tourId_order (steps five_steps_db) ''T'') = [''s1'', ''s2'', ''s3'', ''s4'', ''s5'']"
    by (simp add: five_steps_db_def query_by_tourId_order_def)
  have n: "map int [1..<5] = [1, 2, 3, 4]"
    by (simp add: upt_rec)
  from arg_cong [OF o, of length]
  have l: "length (query_by_tourId_order (steps five_steps_db) ''T'') = 5"
    by simp
  from deleteStep_resequences [OF five_steps_delete d g] o n l
  have "map (\<lambda>p. step_order (snd p)) (query_by_tourId_order (steps four_steps_db) ''T'') = [1, 2, 3, 4]
        \<and> map fst (query_by_tourId_order (steps four_steps_db) ''T'') = [''s1'', ''s3'', ''s4'', ''s5'']"
    by simp
  with five_steps_delete d g o show ?thesis by simp
qed

end
